theory Spec2Isabelle
  imports Main "HOL-Library.Char_ord" "HOL-Library.List_Lexorder" "HOL-Library.AList"
begin

section \<open>JavaScript strings and errors\<close>

text \<open>
  JavaScript strings are modelled as \<open>string\<close>. Only structural operations are used by
  the code (concatenation, \<open>startsWith\<close>, \<open>endsWith\<close>, \<open>slice\<close>, \<open>split\<close>, \<open>join\<close>,
  \<open>lastIndexOf\<close>), and they are written out below with their JavaScript behaviour. A
  string is truthy exactly when it is not empty.
\<close>

definition startsWith :: "string \<Rightarrow> string \<Rightarrow> bool" where
  "startsWith s p = (take (length p) s = p)"

definition endsWith :: "string \<Rightarrow> string \<Rightarrow> bool" where
  "endsWith s suf = (length suf \<le> length s \<and> drop (length s - length suf) s = suf)"

text \<open>\<open>xs.join(sep)\<close>\<close>

fun join :: "string \<Rightarrow> string list \<Rightarrow> string" where
  "join sep [] = []"
| "join sep [x] = x"
| "join sep (x # y # ys) = x @ sep @ join sep (y # ys)"

text \<open>\<open>s.split(c)\<close> for a one-character separator: \<open>''.split(',')\<close> is \<open>['']\<close>.\<close>

primrec split :: "char \<Rightarrow> string \<Rightarrow> string list" where
  "split sep [] = [[]]"
| "split sep (c # cs) =
     (if c = sep then [] # split sep cs
      else (case split sep cs of [] \<Rightarrow> [[c]] | w # ws \<Rightarrow> (c # w) # ws))"

text \<open>\<open>s.lastIndexOf(c)\<close>: \<open>None\<close> stands for the result \<open>-1\<close>.\<close>

primrec lastIndexOf :: "string \<Rightarrow> char \<Rightarrow> nat option" where
  "lastIndexOf [] c = None"
| "lastIndexOf (x # xs) c =
     (case lastIndexOf xs c of
        Some i \<Rightarrow> Some (Suc i)
      | None \<Rightarrow> if x = c then Some 0 else None)"

text \<open>The decimal digits of a number, as a template literal prints an integer.\<close>

definition digit_char :: "nat \<Rightarrow> char" where
  "digit_char d = char_of (of_char CHR ''0'' + d)"

fun show_nat :: "nat \<Rightarrow> string" where
  "show_nat n =
     (let d = digit_char (n mod 10)
      in if 10 \<le> n then show_nat (n div 10) @ [d] else [d])"

declare show_nat.simps [simp del]

definition show_int :: "int \<Rightarrow> string" where
  "show_int i = (if 0 \<le> i then show_nat (nat i) else CHR ''-'' # show_nat (nat (- i)))"

text \<open>
  A thrown JavaScript error: its \<open>name\<close> (which the code inspects) and its message. A
  promise that rejects, or a function that throws, is a result \<open>Inl e\<close>.
\<close>

datatype js_error = Error (name: string) (message: string)

section \<open>Cache entries\<close>

text \<open>
  \<open>CacheEntry\<close> is declared in the common package, which is not part of the sources; the
  fields below are the ones the code reads. A response header value is a string or an
  array of strings, and \<open>toString\<close> joins an array with commas. The field \<open>kind\<close> is the
  JavaScript string tag (\<open>'PAGE'\<close>, \<open>'ROUTE'\<close>, ...). Numbers are integers: \<open>revalidate\<close>
  is a number of seconds, \<open>lastModified\<close> is in epoch milliseconds.
\<close>

datatype header_value = HString string | HArray "string list"

fun toString :: "header_value \<Rightarrow> string" where
  "toString (HString s) = s"
| "toString (HArray xs) = join '','' xs"

record cache_value =
  kind :: string
  html :: string
  pageData :: string
  headers :: "(string \<times> header_value) list option"

record cache_entry =
  entry_value :: "cache_value option"
  lastModified :: int
  tags :: "string list option"
  revalidate :: "int option"

record cache_context =
  isAppRouter :: bool
  serverAppPath :: string

text \<open>Constants of \<open>next/dist/lib/constants\<close>, with the values Next.js gives them.\<close>

definition NEXT_CACHE_TAGS_HEADER :: string where
  "NEXT_CACHE_TAGS_HEADER = ''x-next-cache-tags''"

definition NEXT_CACHE_IMPLICIT_TAG_ID :: string where
  "NEXT_CACHE_IMPLICIT_TAG_ID = ''_N_T_''"

section \<open>CacheHandler: key derivation and staleness\<close>

text \<open>
  \<open>buildCacheKey(keys, data, prefix)\<close>. The record \<open>data\<close> is a map from names to
  strings; \<open>!data[curr]\<close> holds when the name is missing or its value is empty. The
  reducer returns \<open>`${prev ? '-' : ''}${curr}=${data[curr]}`\<close>: the new accumulator.
\<close>

definition buildCacheKey_step :: "(string \<rightharpoonup> string) \<Rightarrow> string \<Rightarrow> string \<Rightarrow> string" where
  "buildCacheKey_step data prev cur =
     (case data cur of
        None \<Rightarrow> prev
      | Some v \<Rightarrow>
          if v = [] then prev
          else (if prev \<noteq> [] then ''-'' else []) @ cur @ ''='' @ v)"

definition buildCacheKey :: "string list \<Rightarrow> (string \<rightharpoonup> string) \<Rightarrow> string \<Rightarrow> string" where
  "buildCacheKey keys data prefix =
     (if keys = [] then []
      else let cacheKey = foldl (buildCacheKey_step data) [] keys
           in if cacheKey = [] then [] else prefix @ ''('' @ cacheKey @ '')'')"

text \<open>
  \<open>buildCookiesCacheKey\<close>: the cookie parser is an external pure function and is a
  parameter; \<open>cacheCookies\<close> is the static allow-list; the header may be absent.
\<close>

definition buildCookiesCacheKey ::
  "(string \<Rightarrow> (string \<rightharpoonup> string)) \<Rightarrow> string list \<Rightarrow> string option \<Rightarrow> string" where
  "buildCookiesCacheKey cookieParser_parse cacheCookies cookie =
     (let parsedCookies = cookieParser_parse (case cookie of None \<Rightarrow> [] | Some c \<Rightarrow> c)
      in buildCacheKey cacheCookies parsedCookies ''cookie'')"

record cache_handler =
  cookieCacheKey :: string
  queryCacheKey :: string
  device :: "string option"
  handlerServerAppPath :: string

text \<open>\<open>[key, this.device, this.cookieCacheKey, this.queryCacheKey].filter(Boolean).join('-')\<close>\<close>

definition getPageCacheKey :: "cache_handler \<Rightarrow> string \<Rightarrow> string" where
  "getPageCacheKey h key =
     join ''-'' (map the (filter (\<lambda>x. x \<noteq> None \<and> x \<noteq> Some [])
       [Some key, device h, Some (cookieCacheKey h), Some (queryCacheKey h)]))"

text \<open>
  \<open>checkIsStaleCache(pageData)\<close>, with \<open>Date.now()\<close> as the parameter \<open>now\<close>. The guard
  \<open>pageData?.revalidate\<close> is a truthiness test: it fails for \<open>null\<close>, for a missing
  \<open>revalidate\<close> and for \<open>revalidate\<close> equal to 0.
\<close>

definition checkIsStaleCache :: "int \<Rightarrow> cache_entry option \<Rightarrow> bool" where
  "checkIsStaleCache now data =
     (case data of
        None \<Rightarrow> False
      | Some d \<Rightarrow>
          (case revalidate d of
             None \<Rightarrow> False
           | Some r \<Rightarrow> if r \<noteq> 0 then now > lastModified d + r * 1000 else False))"

text \<open>
  \<open>CacheHandler.get(key, ctx)\<close>: the configured strategy's \<open>get\<close> is the parameter
  \<open>cache_get\<close>; a rejection of it propagates.
\<close>

definition CacheHandler_get ::
  "cache_handler \<Rightarrow> (string \<Rightarrow> cache_context \<Rightarrow> js_error + cache_entry option) \<Rightarrow> int \<Rightarrow>
   string \<Rightarrow> cache_context \<Rightarrow> js_error + cache_entry option" where
  "CacheHandler_get h cache_get now key ctx =
     (case cache_get (getPageCacheKey h key) (ctx\<lparr>serverAppPath := handlerServerAppPath h\<rparr>) of
        Inl e \<Rightarrow> Inl e
      | Inr data \<Rightarrow>
          (let isStaleData = checkIsStaleCache now data
           in if isStaleData \<or> data = None then Inr None else Inr data))"

section \<open>RedisCache\<close>

text \<open>
  The Redis client is external: its \<open>scan\<close> and \<open>unlink\<close> answers are parameters, and the
  calls the code issues are recorded in order. \<open>unlink\<close> with one address is recorded as a
  one-element list. \<open>CHUNK_LIMIT\<close> comes from a constants file that is not part of the
  sources and is a parameter.
\<close>

datatype redis_op = Scan nat string nat | Unlink "string list"

record redis_client =
  client_scan :: "nat \<Rightarrow> string \<Rightarrow> nat \<Rightarrow> js_error + (nat \<times> string list)"
  client_unlink :: "string list \<Rightarrow> js_error + nat"

text \<open>
  The \<open>do ... while (cursor != 0)\<close> loop. Nothing bounds the number of iterations: a
  server that never answers with cursor 0 keeps the loop running, which is the value
  \<open>None\<close>.
\<close>

partial_function (option) scan_loop ::
  "redis_client \<Rightarrow> string \<Rightarrow> nat \<Rightarrow> nat \<Rightarrow> string list \<Rightarrow> redis_op list \<Rightarrow>
   ((js_error + string list) \<times> redis_op list) option" where
  "scan_loop c key CHUNK_LIMIT cursor keysToDelete ops =
     (case client_scan c cursor (key @ ''//*'') CHUNK_LIMIT of
        Inl e \<Rightarrow> Some (Inl e, ops @ [Scan cursor (key @ ''//*'') CHUNK_LIMIT])
      | Inr result \<Rightarrow>
          if fst result \<noteq> 0
          then scan_loop c key CHUNK_LIMIT (fst result) (keysToDelete @ snd result)
                 (ops @ [Scan cursor (key @ ''//*'') CHUNK_LIMIT])
          else Some (Inr (keysToDelete @ snd result),
                     ops @ [Scan cursor (key @ ''//*'') CHUNK_LIMIT]))"

text \<open>
  \<open>RedisCache.deleteAllByKeyMatch(key, cacheKey)\<close> returns the outcome (\<open>Inr ()\<close> when
  the promise resolves) and the calls issued.
\<close>

definition Redis_deleteAllByKeyMatch ::
  "redis_client \<Rightarrow> nat \<Rightarrow> string \<Rightarrow> string \<Rightarrow> ((js_error + unit) \<times> redis_op list) option" where
  "Redis_deleteAllByKeyMatch c CHUNK_LIMIT key cacheKey =
     (if cacheKey \<noteq> []
      then Some (case client_unlink c [key @ ''//'' @ cacheKey] of
                   Inl e \<Rightarrow> (Inl e, [Unlink [key @ ''//'' @ cacheKey]])
                 | Inr n \<Rightarrow> (Inr (), [Unlink [key @ ''//'' @ cacheKey]]))
      else (case scan_loop c key CHUNK_LIMIT 0 [] [] of
              None \<Rightarrow> None
            | Some (Inl e, ops) \<Rightarrow> Some (Inl e, ops)
            | Some (Inr keysToDelete, ops) \<Rightarrow>
                if keysToDelete \<noteq> []
                then (case client_unlink c keysToDelete of
                        Inl e \<Rightarrow> Some (Inl e, ops @ [Unlink keysToDelete])
                      | Inr n \<Rightarrow> Some (Inr (), ops @ [Unlink keysToDelete]))
                else Some (Inr (), ops)))"

text \<open>
  A run of the scan: the answers \<open>rs\<close> the server gives, one per call, starting at cursor
  \<open>cur\<close>, every answer but the last with a cursor other than 0 and the last with cursor 0.
\<close>

fun scan_run :: "redis_client \<Rightarrow> string \<Rightarrow> nat \<Rightarrow> nat \<Rightarrow> (nat \<times> string list) list \<Rightarrow> bool" where
  "scan_run c pat lim cur [] = False"
| "scan_run c pat lim cur [r] = (client_scan c cur pat lim = Inr r \<and> fst r = 0)"
| "scan_run c pat lim cur (r # r' # rs) =
     (client_scan c cur pat lim = Inr r \<and> fst r \<noteq> 0 \<and> scan_run c pat lim (fst r) (r' # rs))"

section \<open>The object store\<close>

text \<open>
  The S3 client is external. It is modelled as a bucket of objects with the calls the
  code uses. Every call is recorded in \<open>calls\<close>, in the order of issue. A call fails
  when \<open>faults\<close> names an error for it (a network or service failure), and then leaves
  the bucket as it is; otherwise it behaves as the service documents:
  \<^item> \<open>getObject\<close> and \<open>getObjectTagging\<close> of a missing key fail with \<open>NoSuchKey\<close>;
  \<^item> \<open>putObject\<close> replaces the whole object; its \<open>Tagging\<close> string \<open>k=v&k=v\<close> becomes the
    tag set of the object;
  \<^item> \<open>deleteObject\<close> and \<open>deleteObjects\<close> succeed whether or not the keys exist;
  \<^item> \<open>listObjectsV2\<close> lists keys in ascending order, a page at a time (\<open>page_size\<close> keys,
    at least one), only keys that start with \<open>Prefix\<close> and have no \<open>Delimiter\<close> after it;
    the continuation token is opaque and stands for the last key of the page, so that the
    next page holds the keys after it.
\<close>

datatype token = After string

record s3_tag =
  tag_Key :: "string option"
  tag_Value :: "string option"

record s3_object =
  Body :: "string option"
  ContentType :: "string option"
  CacheControl :: "string option"
  TagSet :: "s3_tag list"
  Metadata :: "(string \<times> string) list"

record put_input =
  put_Key :: string
  put_Body :: string
  put_ContentType :: "string option"
  put_CacheControl :: "string option"
  put_Tagging :: "string option"

record list_input =
  ContinuationToken :: "token option"
  Prefix :: "string option"
  Delimiter :: "string option"

datatype s3_op =
    ListObjectsV2 list_input
  | GetObject string
  | GetObjectTagging string
  | PutObject put_input
  | DeleteObject string
  | DeleteObjects "string list"

record s3_state =
  objects :: "(string \<times> s3_object) list"
  page_size :: nat
  faults :: "s3_op \<Rightarrow> js_error option"
  calls :: "s3_op list"

definition issue :: "s3_op \<Rightarrow> s3_state \<Rightarrow> s3_state" where
  "issue op st = st\<lparr>calls := calls st @ [op]\<rparr>"

definition NoSuchKey :: js_error where
  "NoSuchKey = Error ''NoSuchKey'' ''The specified key does not exist.''"

definition client_getObject :: "string \<Rightarrow> s3_state \<Rightarrow> (js_error + s3_object) \<times> s3_state" where
  "client_getObject key st =
     (case faults st (GetObject key) of
        Some e \<Rightarrow> (Inl e, issue (GetObject key) st)
      | None \<Rightarrow>
          (case map_of (objects st) key of
             None \<Rightarrow> (Inl NoSuchKey, issue (GetObject key) st)
           | Some ob \<Rightarrow> (Inr ob, issue (GetObject key) st)))"

definition client_getObjectTagging :: "string \<Rightarrow> s3_state \<Rightarrow> (js_error + s3_tag list) \<times> s3_state" where
  "client_getObjectTagging key st =
     (case faults st (GetObjectTagging key) of
        Some e \<Rightarrow> (Inl e, issue (GetObjectTagging key) st)
      | None \<Rightarrow>
          (case map_of (objects st) key of
             None \<Rightarrow> (Inl NoSuchKey, issue (GetObjectTagging key) st)
           | Some ob \<Rightarrow> (Inr (TagSet ob), issue (GetObjectTagging key) st)))"

text \<open>The tag set S3 reads from a \<open>Tagging\<close> string: pairs joined by \<open>&\<close>, each \<open>key=value\<close>.\<close>

definition parse_tagging :: "string \<Rightarrow> s3_tag list" where
  "parse_tagging s =
     (if s = [] then []
      else map (\<lambda>kv. \<lparr>tag_Key = Some (takeWhile (\<lambda>c. c \<noteq> CHR ''='') kv),
                     tag_Value = Some (drop 1 (dropWhile (\<lambda>c. c \<noteq> CHR ''='') kv))\<rparr>)
             (split CHR ''&'' s))"

definition stored_object :: "put_input \<Rightarrow> s3_object" where
  "stored_object input =
     \<lparr>Body = Some (put_Body input),
      ContentType = put_ContentType input,
      CacheControl = put_CacheControl input,
      TagSet = (case put_Tagging input of None \<Rightarrow> [] | Some t \<Rightarrow> parse_tagging t),
      Metadata = []\<rparr>"

definition client_putObject :: "put_input \<Rightarrow> s3_state \<Rightarrow> (js_error + unit) \<times> s3_state" where
  "client_putObject input st =
     (case faults st (PutObject input) of
        Some e \<Rightarrow> (Inl e, issue (PutObject input) st)
      | None \<Rightarrow>
          (Inr (), issue (PutObject input)
                     (st\<lparr>objects := AList.update (put_Key input) (stored_object input) (objects st)\<rparr>)))"

definition client_deleteObject :: "string \<Rightarrow> s3_state \<Rightarrow> (js_error + unit) \<times> s3_state" where
  "client_deleteObject key st =
     (case faults st (DeleteObject key) of
        Some e \<Rightarrow> (Inl e, issue (DeleteObject key) st)
      | None \<Rightarrow>
          (Inr (), issue (DeleteObject key)
                     (st\<lparr>objects := filter (\<lambda>kv. fst kv \<noteq> key) (objects st)\<rparr>)))"

definition client_deleteObjects :: "string list \<Rightarrow> s3_state \<Rightarrow> (js_error + unit) \<times> s3_state" where
  "client_deleteObjects keys st =
     (case faults st (DeleteObjects keys) of
        Some e \<Rightarrow> (Inl e, issue (DeleteObjects keys) st)
      | None \<Rightarrow>
          (Inr (), issue (DeleteObjects keys)
                     (st\<lparr>objects := filter (\<lambda>kv. fst kv \<notin> set keys) (objects st)\<rparr>)))"

text \<open>\<open>occurs d s\<close>: the string \<open>d\<close> occurs in \<open>s\<close>.\<close>

primrec occurs :: "string \<Rightarrow> string \<Rightarrow> bool" where
  "occurs d [] = (d = [])"
| "occurs d (c # cs) = (if startsWith (c # cs) d then True else occurs d cs)"

definition visible :: "list_input \<Rightarrow> string \<Rightarrow> bool" where
  "visible req k =
     (let p = (case Prefix req of None \<Rightarrow> [] | Some p \<Rightarrow> p)
      in startsWith k p \<and>
         (case Delimiter req of
            None \<Rightarrow> True
          | Some d \<Rightarrow> if d = [] then True else \<not> occurs d (drop (length p) k)))"

fun after :: "token option \<Rightarrow> string \<Rightarrow> bool" where
  "after None k = True"
| "after (Some (After t)) k = (t < k)"

definition listing :: "s3_state \<Rightarrow> list_input \<Rightarrow> string list" where
  "listing st req =
     filter (\<lambda>k. visible req k \<and> after (ContinuationToken req) k)
       (sorted_list_of_set (set (map fst (objects st))))"

text \<open>
  The answer of \<open>listObjectsV2\<close>: \<open>Contents\<close> (each entry with its \<open>Key\<close>, which the SDK
  types as optional) and \<open>NextContinuationToken\<close>.
\<close>

definition page_limit :: "s3_state \<Rightarrow> nat" where
  "page_limit st = max 1 (page_size st)"

definition client_listObjectsV2 ::
  "list_input \<Rightarrow> s3_state \<Rightarrow> (js_error + (string option list \<times> token option)) \<times> s3_state" where
  "client_listObjectsV2 req st =
     (case faults st (ListObjectsV2 req) of
        Some e \<Rightarrow> (Inl e, issue (ListObjectsV2 req) st)
      | None \<Rightarrow>
          (let ks = listing st req; n = page_limit st
           in (Inr (map Some (take n ks),
                    if n < length ks then Some (After (ks ! (n - 1))) else None),
               issue (ListObjectsV2 req) st)))"

lemma length_listing:
  "length (listing st req) =
     card {k \<in> set (map fst (objects st)). visible req k \<and> after (ContinuationToken req) k}"
proof -
  have "distinct (listing st req)"
    by (simp add: listing_def)
  then have "length (listing st req) = card (set (listing st req))"
    by (simp add: distinct_card)
  also have "set (listing st req) =
      {k \<in> set (map fst (objects st)). visible req k \<and> after (ContinuationToken req) k}"
    by (auto simp: listing_def)
  finally show ?thesis .
qed

lemma listing_next:
  assumes n: "n < length (listing st req)"
    and sub: "set (map fst (objects st')) \<subseteq> set (map fst (objects st))"
  shows "length (listing st' (req\<lparr>ContinuationToken := Some (After (listing st req ! n))\<rparr>))
           < length (listing st req)"
proof -
  let ?t = "listing st req ! n"
  let ?A = "{k \<in> set (map fst (objects st')).
              visible (req\<lparr>ContinuationToken := Some (After ?t)\<rparr>) k \<and> ?t < k}"
  let ?B = "{k \<in> set (map fst (objects st)). visible req k \<and> after (ContinuationToken req) k}"
  have vis: "visible (req\<lparr>ContinuationToken := Some (After ?t)\<rparr>) k = visible req k" for k
    by (simp add: visible_def)
  have tB: "?t \<in> ?B"
    using nth_mem [OF n] by (auto simp: listing_def)
  have aft: "after (ContinuationToken req) k" if "?t < k" for k
  proof (cases "ContinuationToken req")
    case None
    then show ?thesis by simp
  next
    case (Some tok)
    obtain t0 where "tok = After t0" by (cases tok)
    with Some tB that show ?thesis by auto
  qed
  have "?A \<subseteq> ?B"
    using sub aft by (auto simp: vis)
  moreover have "?t \<notin> ?A" by simp
  ultimately have "?A \<subset> ?B" using tB by blast
  moreover have "finite ?B" by simp
  ultimately have "card ?A < card ?B" by (rule psubset_card_mono [rotated])
  then show ?thesis
    by (simp add: length_listing)
qed

lemma client_listObjectsV2_next:
  assumes "client_listObjectsV2 req st = (Inr (contents, Some t), st1)"
    and "set (map fst (objects st')) \<subseteq> set (map fst (objects st))"
  shows "length (listing st' (req\<lparr>ContinuationToken := Some t\<rparr>)) < length (listing st req)"
proof -
  let ?n = "page_limit st"
  from assms(1) have lt: "?n < length (listing st req)"
    and t: "t = After (listing st req ! (?n - 1))"
    by (auto simp: client_listObjectsV2_def Let_def split: option.splits if_splits)
  from lt have "?n - 1 < length (listing st req)" by arith
  from listing_next [OF this assms(2)] t show ?thesis by simp
qed

lemma client_listObjectsV2_objects:
  "client_listObjectsV2 req st = (r, st1) \<Longrightarrow> objects st1 = objects st"
  by (auto simp: client_listObjectsV2_def issue_def Let_def split: option.splits)

section \<open>S3Cache\<close>

text \<open>
  The class \<open>S3Cache\<close> with \<open>deleteObjects\<close>, \<open>buildTagKeys\<close> and the \<open>allowCacheKeys\<close>
  filter. Each method takes the store and returns its outcome (\<open>Inl\<close> when the promise
  rejects) with the store after the call. The unused context argument of
  \<open>revalidateTag\<close> and \<open>deleteAllByKeyMatch\<close> is left out, and so is the guard
  \<open>if (!this.client)\<close> of \<open>get\<close>: the constructor always sets the client.
\<close>

definition TAG_PREFIX :: string where
  "TAG_PREFIX = ''revalidateTag''"

definition NOT_FOUND_ERROR :: "string list" where
  "NOT_FOUND_ERROR = [''NotFound'', ''NoSuchKey'']"

definition PAGE_CACHE_EXTENSIONS :: "string list" where
  "PAGE_CACHE_EXTENSIONS = [''json'', ''html'', ''rsc'']"

definition CHUNK_LIMIT :: nat where
  "CHUNK_LIMIT = 1000"

text \<open>
  Modelled from the spec: \<open>chunkArray\<close> of the common package is not part of the sources.
  The spec has the keys deleted "in bounded-size chunks (chunk size \<open>\<le>\<close> 1000)":
  \<open>chunkArray xs n\<close> cuts \<open>xs\<close>, in order, into consecutive chunks of \<open>n\<close> elements, the
  last one possibly shorter, and has no chunk for an empty list.
\<close>

function chunkArray :: "'a list \<Rightarrow> nat \<Rightarrow> 'a list list" where
  "chunkArray xs n = (if xs = [] \<or> n = 0 then [] else take n xs # chunkArray (drop n xs) n)"
  by pat_completeness auto
termination
  by (relation "measure (\<lambda>(xs, n). length xs)") auto

declare chunkArray.simps [simp del]

text \<open>
  \<open>JSON.stringify\<close> and \<open>JSON.parse\<close> belong to the runtime. They are a parameter: a pair
  of functions between entries and strings, \<open>JSON_parse\<close> failing on a string that is
  not JSON.
\<close>

record json_codec =
  JSON_stringify :: "cache_entry \<Rightarrow> string"
  JSON_parse :: "string \<Rightarrow> js_error + cache_entry"

text \<open>\<open>buildTagKeys(tags?: string | string[])\<close>\<close>

datatype tags_arg = TagsString string | TagsArray "string list"

definition tag_keys :: "string list \<Rightarrow> string" where
  "tag_keys xs =
     join ''&'' (map (\<lambda>(index, tag). TAG_PREFIX @ show_nat index @ ''='' @ tag) (enumerate 0 xs))"

definition buildTagKeys :: "tags_arg option \<Rightarrow> string" where
  "buildTagKeys tgs =
     (case tgs of
        None \<Rightarrow> []
      | Some (TagsString s) \<Rightarrow> if s = [] then [] else tag_keys (split CHR '','' s)
      | Some (TagsArray xs) \<Rightarrow> if xs = [] then [] else tag_keys xs)"

text \<open>
  \<open>deleteObjects(keysToDelete)\<close>: one \<open>deleteObjects\<close> call of the client for each chunk.
  \<open>map\<close> issues every call before any of them settles, and \<open>Promise.allSettled\<close> resolves
  whatever the calls do, so the outcome of a call is dropped and the method resolves.
\<close>

definition S3Cache_deleteObjects :: "string list \<Rightarrow> s3_state \<Rightarrow> (js_error + unit) \<times> s3_state" where
  "S3Cache_deleteObjects keysToDelete st =
     (Inr (), foldl (\<lambda>st' chunk. snd (client_deleteObjects chunk st')) st
                (chunkArray keysToDelete CHUNK_LIMIT))"

text \<open>\<open>get(pageKey, cacheKey)\<close>\<close>

definition S3Cache_get ::
  "json_codec \<Rightarrow> string \<Rightarrow> string \<Rightarrow> s3_state \<Rightarrow> (js_error + cache_entry option) \<times> s3_state" where
  "S3Cache_get J pageKey cacheKey st =
     (case client_getObject (pageKey @ ''/'' @ cacheKey @ ''.'' @ ''json'') st of
        (Inl error, st') \<Rightarrow>
          if name error \<in> set NOT_FOUND_ERROR then (Inr None, st') else (Inl error, st')
      | (Inr got, st') \<Rightarrow>
          (case Body got of
             None \<Rightarrow> (Inr None, st')
           | Some body \<Rightarrow>
               (case JSON_parse J body of
                  Inl e \<Rightarrow> (Inl e, st')
                | Inr entry \<Rightarrow> (Inr (Some entry), st'))))"

text \<open>
  \<open>Promise.all(promises)\<close> over \<open>putObject\<close> calls: every call is issued when its promise
  is created, in the order of the \<open>push\<close>es; the result rejects when one of them does, and
  the writes that succeeded stay.
\<close>

fun put_all :: "put_input list \<Rightarrow> s3_state \<Rightarrow> (js_error + unit) \<times> s3_state" where
  "put_all [] st = (Inr (), st)"
| "put_all (input # inputs) st =
     (case client_putObject input st of
        (r, st') \<Rightarrow>
          (case put_all inputs st' of
             (r', st'') \<Rightarrow> (case r of Inl e \<Rightarrow> (Inl e, st'') | Inr u \<Rightarrow> (r', st''))))"

definition header_tags :: "cache_value \<Rightarrow> string option" where
  "header_tags v =
     (case headers v of
        None \<Rightarrow> None
      | Some hs \<Rightarrow>
          (case map_of hs NEXT_CACHE_TAGS_HEADER of
             None \<Rightarrow> None
           | Some h \<Rightarrow> Some (toString h)))"

text \<open>\<open>set(pageKey, cacheKey, data, ctx)\<close>\<close>

definition S3Cache_set ::
  "json_codec \<Rightarrow> string \<Rightarrow> string \<Rightarrow> cache_entry \<Rightarrow> cache_context \<Rightarrow> s3_state \<Rightarrow>
   (js_error + unit) \<times> s3_state" where
  "S3Cache_set J pageKey cacheKey data ctx st =
     (let baseKey = pageKey @ ''/'' @ cacheKey;
          baseCacheControl =
            (case revalidate data of
               None \<Rightarrow> None
             | Some r \<Rightarrow> if r \<noteq> 0 then Some (''max-age='' @ show_int r) else None);
          isPage = (case entry_value data of None \<Rightarrow> False | Some v \<Rightarrow> kind v = ''PAGE'');
          isRoute = (case entry_value data of None \<Rightarrow> False | Some v \<Rightarrow> kind v = ''ROUTE'')
      in if isPage \<or> isRoute
         then
           (let v = the (entry_value data);
                headersTags = buildTagKeys (map_option TagsString (header_tags v));
                tagging = (if headersTags \<noteq> [] then Some headersTags else None)
            in put_all
                 ((if isPage
                   then [\<lparr>put_Key = baseKey @ ''.'' @ ''html'', put_Body = html v,
                          put_ContentType = Some ''text/html'',
                          put_CacheControl = baseCacheControl, put_Tagging = tagging\<rparr>] @
                        (if isAppRouter ctx
                         then [\<lparr>put_Key = baseKey @ ''.'' @ ''rsc'', put_Body = pageData v,
                                put_ContentType = Some ''text/x-component'',
                                put_CacheControl = baseCacheControl, put_Tagging = tagging\<rparr>]
                         else [])
                   else []) @
                  [\<lparr>put_Key = baseKey @ ''.'' @ ''json'', put_Body = JSON_stringify J data,
                    put_ContentType = Some ''application/json'',
                    put_CacheControl = baseCacheControl, put_Tagging = tagging\<rparr>])
                 st)
         else
           put_all
             [\<lparr>put_Key = baseKey @ ''.'' @ ''json'', put_Body = JSON_stringify J data,
               put_ContentType = Some ''application/json'',
               put_CacheControl = baseCacheControl,
               put_Tagging =
                 (case tags data of
                    None \<Rightarrow> None
                  | Some ts \<Rightarrow> if ts \<noteq> [] then Some (buildTagKeys (Some (TagsArray ts))) else None)\<rparr>]
             st)"

text \<open>\<open>key.replace(/\.(json|html)$/, '')\<close>\<close>

definition strip_json_html :: "string \<Rightarrow> string" where
  "strip_json_html key =
     (if endsWith key ''.json'' \<or> endsWith key ''.html'' then take (length key - 5) key else key)"

text \<open>\<open>allowCacheKeys.some((allowKey) => key.replace(/\.(json|html)$/, '').endsWith(allowKey))\<close>\<close>

definition some_allowKey :: "string list \<Rightarrow> string \<Rightarrow> bool" where
  "some_allowKey allowCacheKeys key =
     list_ex (\<lambda>allowKey. endsWith (strip_json_html key) allowKey) allowCacheKeys"

text \<open>
  The tag values of an object, as \<open>revalidateTag\<close> reads them:
  \<open>TagSet.filter(({Key}) => Key?.startsWith(TAG_PREFIX)).map(({Value}) => Value || '')\<close>.
\<close>

definition tag_values :: "s3_tag list \<Rightarrow> string list" where
  "tag_values tagSet =
     map (\<lambda>t. case tag_Value t of None \<Rightarrow> [] | Some v \<Rightarrow> v)
       (filter (\<lambda>t. case tag_Key t of None \<Rightarrow> False | Some k \<Rightarrow> startsWith k TAG_PREFIX) tagSet)"

text \<open>
  The asynchronous \<open>reduce\<close> over one page of \<open>revalidateTag\<close>. The callback runs for every
  entry, in order, up to its first \<open>await\<close>, so \<open>getObjectTagging\<close> is issued for every
  entry that is not skipped, whatever the earlier calls do. The accumulator is a promise:
  a callback whose own \<open>getObjectTagging\<close> rejects rejects with that error, one that
  returns or awaits a rejected accumulator rejects with the accumulator's error.
\<close>

fun revalidateTag_reduce ::
  "string \<Rightarrow> string list \<Rightarrow> string option list \<Rightarrow> js_error + string list \<Rightarrow> s3_state \<Rightarrow>
   (js_error + string list) \<times> s3_state" where
  "revalidateTag_reduce tag allowCacheKeys [] acc st = (acc, st)"
| "revalidateTag_reduce tag allowCacheKeys (None # contents) acc st =
     revalidateTag_reduce tag allowCacheKeys contents acc st"
| "revalidateTag_reduce tag allowCacheKeys (Some key # contents) acc st =
     (if key = [] \<or> (allowCacheKeys \<noteq> [] \<and> some_allowKey allowCacheKeys key)
      then revalidateTag_reduce tag allowCacheKeys contents acc st
      else
        (case client_getObjectTagging key st of
           (Inl e, st') \<Rightarrow> revalidateTag_reduce tag allowCacheKeys contents (Inl e) st'
         | (Inr tagSet, st') \<Rightarrow>
             if tag \<in> set (tag_values tagSet)
             then revalidateTag_reduce tag allowCacheKeys contents
                    (case acc of Inl e \<Rightarrow> Inl e | Inr ks \<Rightarrow> Inr (ks @ [key])) st'
             else revalidateTag_reduce tag allowCacheKeys contents acc st'))"

lemma revalidateTag_reduce_objects:
  "objects (snd (revalidateTag_reduce tag allowCacheKeys contents acc st)) = objects st"
  by (induction tag allowCacheKeys contents acc st rule: revalidateTag_reduce.induct)
     (auto simp: client_getObjectTagging_def issue_def split: option.splits prod.splits sum.splits)

text \<open>The \<open>do ... while (nextContinuationToken)\<close> loop of \<open>revalidateTag\<close>.\<close>

function revalidateTag_loop ::
  "string \<Rightarrow> string list \<Rightarrow> token option \<Rightarrow> string list \<Rightarrow> s3_state \<Rightarrow>
   (js_error + string list) \<times> s3_state" where
  "revalidateTag_loop tag allowCacheKeys nextContinuationToken keysToDelete st =
     (case client_listObjectsV2
             \<lparr>ContinuationToken = nextContinuationToken, Prefix = None, Delimiter = None\<rparr> st of
        (Inl e, st1) \<Rightarrow> (Inl e, st1)
      | (Inr (contents, token), st1) \<Rightarrow>
          (case revalidateTag_reduce tag allowCacheKeys contents (Inr []) st1 of
             (Inl e, st2) \<Rightarrow> (Inl e, st2)
           | (Inr ks, st2) \<Rightarrow>
               (case token of
                  None \<Rightarrow> (Inr (keysToDelete @ ks), st2)
                | Some t \<Rightarrow> revalidateTag_loop tag allowCacheKeys (Some t) (keysToDelete @ ks) st2)))"
  by pat_completeness auto
termination
proof (relation "measure (\<lambda>(tag, allowCacheKeys, tok, keysToDelete, st).
          length (listing st \<lparr>ContinuationToken = tok, Prefix = None, Delimiter = None\<rparr>))",
       goal_cases)
  case 1
  show ?case by simp
next
  case (2 tag allowCacheKeys tok keysToDelete st x1 st1 x2 contents token x3 st2 ks t)
  let ?req = "\<lparr>ContinuationToken = tok, Prefix = None, Delimiter = None\<rparr>"
  from 2 have a: "client_listObjectsV2 ?req st = (Inr (contents, Some t), st1)"
    by (metis (no_types))
  from 2 have b: "revalidateTag_reduce tag allowCacheKeys contents (Inr []) st1 = (Inr ks, st2)"
    by (metis (no_types))
  have "objects st2 = objects st"
    using revalidateTag_reduce_objects [of tag allowCacheKeys contents "Inr []" st1]
      client_listObjectsV2_objects [OF a]
    by (simp add: b)
  then show ?case
    using client_listObjectsV2_next [OF a, of st2] by simp
qed

declare revalidateTag_loop.simps [simp del]

text \<open>\<open>revalidateTag(tag, _ctx, allowCacheKeys)\<close>\<close>

definition S3Cache_revalidateTag ::
  "string \<Rightarrow> string list \<Rightarrow> s3_state \<Rightarrow> (js_error + unit) \<times> s3_state" where
  "S3Cache_revalidateTag tag allowCacheKeys st =
     (case revalidateTag_loop tag allowCacheKeys None [] st of
        (Inl e, st') \<Rightarrow> (Inl e, st')
      | (Inr keysToDelete, st') \<Rightarrow> S3Cache_deleteObjects keysToDelete st')"

text \<open>\<open>delete(pageKey, cacheKey)\<close>\<close>

definition S3Cache_delete :: "string \<Rightarrow> string \<Rightarrow> s3_state \<Rightarrow> (js_error + unit) \<times> s3_state" where
  "S3Cache_delete pageKey cacheKey st =
     client_deleteObjects
       (map (\<lambda>ext. pageKey @ ''/'' @ cacheKey @ ''.'' @ ext) PAGE_CACHE_EXTENSIONS) st"

text \<open>
  The \<open>reduce\<close> over one page of \<open>deleteAllByKeyMatch\<close>; a missing \<open>Key\<close> defaults to the
  empty string.
\<close>

definition deleteAllByKeyMatch_reduce :: "string option list \<Rightarrow> string list" where
  "deleteAllByKeyMatch_reduce contents =
     foldl (\<lambda>acc k.
              (let key = (case k of None \<Rightarrow> [] | Some key \<Rightarrow> key)
               in if list_ex (\<lambda>ext. endsWith key ext) PAGE_CACHE_EXTENSIONS
                  then acc @ [key] else acc))
       [] contents"

function deleteAllByKeyMatch_loop ::
  "string \<Rightarrow> token option \<Rightarrow> string list \<Rightarrow> s3_state \<Rightarrow> (js_error + string list) \<times> s3_state" where
  "deleteAllByKeyMatch_loop pageKey nextContinuationToken keysToDelete st =
     (case client_listObjectsV2
             \<lparr>ContinuationToken = nextContinuationToken, Prefix = Some (pageKey @ ''/''),
              Delimiter = Some ''/''\<rparr> st of
        (Inl e, st1) \<Rightarrow> (Inl e, st1)
      | (Inr (contents, token), st1) \<Rightarrow>
          (case token of
             None \<Rightarrow> (Inr (keysToDelete @ deleteAllByKeyMatch_reduce contents), st1)
           | Some t \<Rightarrow>
               deleteAllByKeyMatch_loop pageKey (Some t)
                 (keysToDelete @ deleteAllByKeyMatch_reduce contents) st1))"
  by pat_completeness auto
termination
proof (relation "measure (\<lambda>(pageKey, tok, keysToDelete, st).
          length (listing st \<lparr>ContinuationToken = tok, Prefix = Some (pageKey @ ''/''),
                              Delimiter = Some ''/''\<rparr>))",
       goal_cases)
  case 1
  show ?case by simp
next
  case (2 pageKey tok keysToDelete st x1 st1 x2 contents token t)
  let ?req = "\<lparr>ContinuationToken = tok, Prefix = Some (pageKey @ ''/''), Delimiter = Some ''/''\<rparr>"
  from 2 have a: "client_listObjectsV2 ?req st = (Inr (contents, Some t), st1)"
    by (metis (no_types))
  have "objects st1 = objects st"
    using client_listObjectsV2_objects [OF a] .
  then show ?case
    using client_listObjectsV2_next [OF a, of st1] by simp
qed

declare deleteAllByKeyMatch_loop.simps [simp del]

text \<open>\<open>deleteAllByKeyMatch(pageKey, _ctx, allowCacheKeys)\<close>\<close>

definition S3Cache_deleteAllByKeyMatch ::
  "string \<Rightarrow> string list \<Rightarrow> s3_state \<Rightarrow> (js_error + unit) \<times> s3_state" where
  "S3Cache_deleteAllByKeyMatch pageKey allowCacheKeys st =
     (case deleteAllByKeyMatch_loop pageKey None [] st of
        (Inl e, st') \<Rightarrow> (Inl e, st')
      | (Inr keysToDelete, st') \<Rightarrow>
          S3Cache_deleteObjects
            (if allowCacheKeys \<noteq> [] then filter (some_allowKey allowCacheKeys) keysToDelete
             else keysToDelete)
            st')"

section \<open>S3Cache, the first class of the file\<close>

text \<open>
  \<open>index.ts\<close> holds two definitions of the class \<open>S3Cache\<close>. The first one (its
  \<open>revalidateTag\<close> takes the tag only) keeps tags in the object metadata and deletes
  object by object; its methods carry the prefix \<open>S3Cache1\<close> here. The second one is the
  class of the previous section.
\<close>

definition TAGS_SEPARATOR :: char where
  "TAGS_SEPARATOR = CHR '',''"

text \<open>\<open>this.client.deleteObject(...).catch(...)\<close>: a not-found error is swallowed.\<close>

definition deleteObject_catch :: "string \<Rightarrow> s3_state \<Rightarrow> (js_error + unit) \<times> s3_state" where
  "deleteObject_catch key st =
     (case client_deleteObject key st of
        (Inl error, st') \<Rightarrow>
          if name error \<in> set NOT_FOUND_ERROR then (Inr (), st') else (Inl error, st')
      | (Inr u, st') \<Rightarrow> (Inr (), st'))"

definition S3Cache1_delete :: "string \<Rightarrow> string \<Rightarrow> s3_state \<Rightarrow> (js_error + unit) \<times> s3_state" where
  "S3Cache1_delete pageKey cacheKey st =
     (case deleteObject_catch (pageKey @ ''/'' @ cacheKey @ ''.json'') st of
        (Inl e, st1) \<Rightarrow> (Inl e, st1)
      | (Inr u, st1) \<Rightarrow> deleteObject_catch (pageKey @ ''/'' @ cacheKey @ ''.html'') st1)"

text \<open>
  \<open>this.delete(key.substring(0, lastSlashIndex),
  key.substring(lastSlashIndex + 1).replace(/\.json$|\.html$/, ''))\<close>; with no slash in the
  key, \<open>lastSlashIndex\<close> is \<open>-1\<close>, the first argument is empty and the second is the whole
  key without its extension.
\<close>

definition delete_listed :: "string \<Rightarrow> s3_state \<Rightarrow> (js_error + unit) \<times> s3_state" where
  "delete_listed key st =
     (case lastIndexOf key CHR ''/'' of
        None \<Rightarrow> S3Cache1_delete [] (strip_json_html key) st
      | Some lastSlashIndex \<Rightarrow>
          S3Cache1_delete (take lastSlashIndex key)
            (strip_json_html (drop (Suc lastSlashIndex) key)) st)"

text \<open>The \<open>for\<close> loop over one page of the first \<open>deleteAllByKeyMatch\<close>.\<close>

fun deleteAllByKeyMatch1_page ::
  "string option list \<Rightarrow> s3_state \<Rightarrow> (js_error + unit) \<times> s3_state" where
  "deleteAllByKeyMatch1_page [] st = (Inr (), st)"
| "deleteAllByKeyMatch1_page (None # contents) st = deleteAllByKeyMatch1_page contents st"
| "deleteAllByKeyMatch1_page (Some key # contents) st =
     (if key = [] then deleteAllByKeyMatch1_page contents st
      else if endsWith key ''.json'' \<or> endsWith key ''.html''
      then (case client_deleteObject key st of
              (Inl e, st') \<Rightarrow> (Inl e, st')
            | (Inr u, st') \<Rightarrow> deleteAllByKeyMatch1_page contents st')
      else deleteAllByKeyMatch1_page contents st)"

lemma client_deleteObject_keys:
  "set (map fst (objects (snd (client_deleteObject key st)))) \<subseteq> set (map fst (objects st))"
  by (auto simp: client_deleteObject_def issue_def split: option.splits)

lemma deleteAllByKeyMatch1_page_keys:
  "set (map fst (objects (snd (deleteAllByKeyMatch1_page contents st))))
     \<subseteq> set (map fst (objects st))"
proof (induction contents arbitrary: st)
  case Nil
  show ?case by simp
next
  case (Cons k contents)
  show ?case
  proof (cases k)
    case None
    with Cons.IH [of st] show ?thesis by simp
  next
    case (Some key)
    obtain r st' where d: "client_deleteObject key st = (r, st')"
      by (cases "client_deleteObject key st")
    have sub: "set (map fst (objects st')) \<subseteq> set (map fst (objects st))"
      using client_deleteObject_keys [of key st] d by simp
    have rec: "set (map fst (objects (snd (deleteAllByKeyMatch1_page contents st'))))
        \<subseteq> set (map fst (objects st))"
      using Cons.IH [of st'] sub by (rule order_trans)
    show ?thesis
      using Some d sub rec Cons.IH [of st] by (cases r) simp_all
  qed
qed

function deleteAllByKeyMatch1_loop ::
  "string \<Rightarrow> token option \<Rightarrow> s3_state \<Rightarrow> (js_error + unit) \<times> s3_state" where
  "deleteAllByKeyMatch1_loop pageKey nextContinuationToken st =
     (case client_listObjectsV2
             \<lparr>ContinuationToken = nextContinuationToken, Prefix = Some (pageKey @ ''/''),
              Delimiter = Some ''/''\<rparr> st of
        (Inl e, st1) \<Rightarrow> (Inl e, st1)
      | (Inr (contents, token), st1) \<Rightarrow>
          (case deleteAllByKeyMatch1_page contents st1 of
             (Inl e, st2) \<Rightarrow> (Inl e, st2)
           | (Inr u, st2) \<Rightarrow>
               (case token of
                  None \<Rightarrow> (Inr (), st2)
                | Some t \<Rightarrow> deleteAllByKeyMatch1_loop pageKey (Some t) st2)))"
  by pat_completeness auto
termination
proof (relation "measure (\<lambda>(pageKey, tok, st).
          length (listing st \<lparr>ContinuationToken = tok, Prefix = Some (pageKey @ ''/''),
                              Delimiter = Some ''/''\<rparr>))",
       goal_cases)
  case 1
  show ?case by simp
next
  case (2 pageKey tok st x1 st1 x2 contents token x3 st2 u t)
  let ?req = "\<lparr>ContinuationToken = tok, Prefix = Some (pageKey @ ''/''), Delimiter = Some ''/''\<rparr>"
  from 2 have a: "client_listObjectsV2 ?req st = (Inr (contents, Some t), st1)"
    by (metis (no_types))
  from 2 have b: "deleteAllByKeyMatch1_page contents st1 = (x3, st2)"
    by (metis (no_types))
  have "set (map fst (objects st2)) \<subseteq> set (map fst (objects st))"
    using deleteAllByKeyMatch1_page_keys [of contents st1] client_listObjectsV2_objects [OF a]
    by (simp add: b)
  then show ?case
    using client_listObjectsV2_next [OF a, of st2] by simp
qed

declare deleteAllByKeyMatch1_loop.simps [simp del]

text \<open>The first \<open>deleteAllByKeyMatch(pageKey)\<close>\<close>

definition S3Cache1_deleteAllByKeyMatch :: "string \<Rightarrow> s3_state \<Rightarrow> (js_error + unit) \<times> s3_state" where
  "S3Cache1_deleteAllByKeyMatch pageKey st = deleteAllByKeyMatch1_loop pageKey None st"

text \<open>
  The \<open>for\<close> loop over one page of the first \<open>revalidateTag\<close>: the tags of an object are
  the \<open>tags\<close> entry of its metadata, or the tag header of the page stored in its body.
\<close>

definition page_has_tag :: "cache_entry \<Rightarrow> string \<Rightarrow> bool" where
  "page_has_tag entry tag =
     (case entry_value entry of
        None \<Rightarrow> False
      | Some v \<Rightarrow>
          kind v = ''PAGE'' \<and>
          (case header_tags v of None \<Rightarrow> False | Some h \<Rightarrow> tag \<in> set (split CHR '','' h)))"

fun revalidateTag1_page ::
  "json_codec \<Rightarrow> string \<Rightarrow> string option list \<Rightarrow> s3_state \<Rightarrow> (js_error + unit) \<times> s3_state" where
  "revalidateTag1_page J tag [] st = (Inr (), st)"
| "revalidateTag1_page J tag (None # contents) st = revalidateTag1_page J tag contents st"
| "revalidateTag1_page J tag (Some key # contents) st =
     (if key = [] then revalidateTag1_page J tag contents st
      else
        (case client_getObject key st of
           (Inl e, st1) \<Rightarrow> (Inl e, st1)
         | (Inr got, st1) \<Rightarrow>
             (let tgs = (case map_of (Metadata got) ''tags'' of None \<Rightarrow> [] | Some t \<Rightarrow> t)
              in if tgs \<noteq> [] \<and> tag \<in> set (split TAGS_SEPARATOR tgs)
                 then (case delete_listed key st1 of
                         (Inl e, st2) \<Rightarrow> (Inl e, st2)
                       | (Inr u, st2) \<Rightarrow> revalidateTag1_page J tag contents st2)
                 else if endsWith key ''.json'' \<and> Body got \<noteq> None
                 then (case JSON_parse J (the (Body got)) of
                         Inl e \<Rightarrow> (Inl e, st1)
                       | Inr entry \<Rightarrow>
                           if page_has_tag entry tag
                           then (case delete_listed key st1 of
                                   (Inl e, st2) \<Rightarrow> (Inl e, st2)
                                 | (Inr u, st2) \<Rightarrow> revalidateTag1_page J tag contents st2)
                           else revalidateTag1_page J tag contents st1)
                 else revalidateTag1_page J tag contents st1)))"

lemma deleteObject_catch_keys:
  "set (map fst (objects (snd (deleteObject_catch key st)))) \<subseteq> set (map fst (objects st))"
  using client_deleteObject_keys [of key st]
  by (cases "client_deleteObject key st")
     (auto simp: deleteObject_catch_def split: sum.splits)

lemma S3Cache1_delete_keys:
  "set (map fst (objects (snd (S3Cache1_delete pageKey cacheKey st))))
     \<subseteq> set (map fst (objects st))"
proof (cases "deleteObject_catch (pageKey @ ''/'' @ cacheKey @ ''.json'') st")
  case (Pair r st1)
  have one: "set (map fst (objects st1)) \<subseteq> set (map fst (objects st))"
    using deleteObject_catch_keys [of "pageKey @ ''/'' @ cacheKey @ ''.json''" st] Pair by simp
  have two: "set (map fst (objects (snd (deleteObject_catch (pageKey @ ''/'' @ cacheKey @ ''.html'') st1))))
      \<subseteq> set (map fst (objects st))"
    using deleteObject_catch_keys [of "pageKey @ ''/'' @ cacheKey @ ''.html''" st1] one
    by (rule order_trans)
  show ?thesis
    using Pair one two by (cases r) (simp_all add: S3Cache1_delete_def)
qed

lemma delete_listed_keys:
  "set (map fst (objects (snd (delete_listed key st)))) \<subseteq> set (map fst (objects st))"
  using S3Cache1_delete_keys by (simp add: delete_listed_def split: option.splits)

lemma client_getObject_objects:
  "objects (snd (client_getObject key st)) = objects st"
  by (auto simp: client_getObject_def issue_def split: option.splits)

lemma revalidateTag1_page_keys:
  "set (map fst (objects (snd (revalidateTag1_page J tag contents st))))
     \<subseteq> set (map fst (objects st))"
proof (induction contents arbitrary: st)
  case Nil
  show ?case by simp
next
  case (Cons k contents)
  show ?case
  proof (cases k)
    case None
    with Cons.IH [of st] show ?thesis by simp
  next
    case (Some key)
    obtain r st1 where g: "client_getObject key st = (r, st1)"
      by (cases "client_getObject key st")
    have o1: "objects st1 = objects st"
      using client_getObject_objects [of key st] g by simp
    obtain r2 st2 where dl: "delete_listed key st1 = (r2, st2)"
      by (cases "delete_listed key st1")
    have o2: "set (map fst (objects st2)) \<subseteq> set (map fst (objects st))"
      using delete_listed_keys [of key st1] dl o1 by simp
    have rec1: "set (map fst (objects (snd (revalidateTag1_page J tag contents st1))))
        \<subseteq> set (map fst (objects st))"
      using Cons.IH [of st1] o1 by simp
    have rec2: "set (map fst (objects (snd (revalidateTag1_page J tag contents st2))))
        \<subseteq> set (map fst (objects st))"
      using Cons.IH [of st2] o2 by (rule order_trans)
    show ?thesis
    proof (cases r)
      case (Inl e)
      with Some g o1 Cons.IH [of st] show ?thesis by simp
    next
      case (Inr got)
      show ?thesis
        using Some g Inr o1 o2 dl rec1 rec2 Cons.IH [of st]
        by (cases r2) (simp_all add: Let_def split: sum.splits)
    qed
  qed
qed

function revalidateTag1_loop ::
  "json_codec \<Rightarrow> string \<Rightarrow> token option \<Rightarrow> s3_state \<Rightarrow> (js_error + unit) \<times> s3_state" where
  "revalidateTag1_loop J tag nextContinuationToken st =
     (case client_listObjectsV2
             \<lparr>ContinuationToken = nextContinuationToken, Prefix = None, Delimiter = None\<rparr> st of
        (Inl e, st1) \<Rightarrow> (Inl e, st1)
      | (Inr (contents, token), st1) \<Rightarrow>
          (case revalidateTag1_page J tag contents st1 of
             (Inl e, st2) \<Rightarrow> (Inl e, st2)
           | (Inr u, st2) \<Rightarrow>
               (case token of
                  None \<Rightarrow> (Inr (), st2)
                | Some t \<Rightarrow> revalidateTag1_loop J tag (Some t) st2)))"
  by pat_completeness auto
termination
proof (relation "measure (\<lambda>(J, tag, tok, st).
          length (listing st \<lparr>ContinuationToken = tok, Prefix = None, Delimiter = None\<rparr>))",
       goal_cases)
  case 1
  show ?case by simp
next
  case (2 J tag tok st x1 st1 x2 contents token x3 st2 u t)
  let ?req = "\<lparr>ContinuationToken = tok, Prefix = None, Delimiter = None\<rparr>"
  from 2 have a: "client_listObjectsV2 ?req st = (Inr (contents, Some t), st1)"
    by (metis (no_types))
  from 2 have b: "revalidateTag1_page J tag contents st1 = (x3, st2)"
    by (metis (no_types))
  have "set (map fst (objects st2)) \<subseteq> set (map fst (objects st))"
    using revalidateTag1_page_keys [of J tag contents st1] client_listObjectsV2_objects [OF a]
    by (simp add: b)
  then show ?case
    using client_listObjectsV2_next [OF a, of st2] by simp
qed

declare revalidateTag1_loop.simps [simp del]

text \<open>The first \<open>revalidateTag(tag)\<close>\<close>

definition S3Cache1_revalidateTag ::
  "json_codec \<Rightarrow> string \<Rightarrow> s3_state \<Rightarrow> (js_error + unit) \<times> s3_state" where
  "S3Cache1_revalidateTag J tag st =
     (if startsWith tag NEXT_CACHE_IMPLICIT_TAG_ID
      then S3Cache1_deleteAllByKeyMatch (drop (length NEXT_CACHE_IMPLICIT_TAG_ID) tag) st
      else revalidateTag1_loop J tag None st)"

text \<open>A call that reads the tags of an object: its metadata, its body or its tag set.\<close>

fun is_tag_lookup :: "s3_op \<Rightarrow> bool" where
  "is_tag_lookup (GetObject key) = True"
| "is_tag_lookup (GetObjectTagging key) = True"
| "is_tag_lookup op = False"

section \<open>JSON text of cache entries\<close>

text \<open>
  \<open>JSON.stringify\<close> and \<open>JSON.parse\<close> belong to the runtime. \<open>JSON\<close> below is their
  model on cache entries: the text \<open>JSON.stringify\<close> gives for an entry (the members in
  the order \<open>value\<close>, \<open>lastModified\<close>, \<open>tags\<close>, \<open>revalidate\<close>, a missing member left out, a
  missing \<open>value\<close> written \<open>null\<close>, no white space) and a parser for such text, which
  fails with a \<open>SyntaxError\<close> on anything else.

  A string is written between double quotes; the double quote and the backslash are
  escaped with a backslash, a control character by its one-letter escape or, when it has
  none, by its four hexadecimal digits, as ECMAScript's \<open>QuoteJSONString\<close> does. The
  parser reads every escape of JSON.
\<close>

definition hex_digit :: "nat \<Rightarrow> char" where
  "hex_digit n = (if n < 10 then char_of (48 + n) else char_of (87 + n))"

definition hex_value :: "char \<Rightarrow> nat option" where
  "hex_value c =
     (let n = (of_char c :: nat)
      in if 48 \<le> n \<and> n \<le> 57 then Some (n - 48)
         else if 97 \<le> n \<and> n \<le> 102 then Some (n - 87)
         else if 65 \<le> n \<and> n \<le> 70 then Some (n - 55)
         else None)"

definition escape_char :: "char \<Rightarrow> string" where
  "escape_char c =
     (if c = CHR 0x22 then [CHR 0x5C, CHR 0x22]
      else if c = CHR 0x5C then [CHR 0x5C, CHR 0x5C]
      else if c = CHR 0x08 then [CHR 0x5C, CHR ''b'']
      else if c = CHR 0x0C then [CHR 0x5C, CHR ''f'']
      else if c = CHR 0x0A then [CHR 0x5C, CHR ''n'']
      else if c = CHR 0x0D then [CHR 0x5C, CHR ''r'']
      else if c = CHR 0x09 then [CHR 0x5C, CHR ''t'']
      else if (of_char c :: nat) < 32
      then [CHR 0x5C, CHR ''u'', CHR ''0'', CHR ''0'',
            hex_digit (of_char c div 16), hex_digit (of_char c mod 16)]
      else [c])"

definition print_string :: "string \<Rightarrow> string" where
  "print_string s = CHR 0x22 # concat (map escape_char s) @ [CHR 0x22]"

definition unescape :: "char \<Rightarrow> char option" where
  "unescape e =
     (if e = CHR 0x22 then Some (CHR 0x22)
      else if e = CHR 0x5C then Some (CHR 0x5C)
      else if e = CHR ''/'' then Some (CHR ''/'')
      else if e = CHR ''b'' then Some (CHR 0x08)
      else if e = CHR ''f'' then Some (CHR 0x0C)
      else if e = CHR ''n'' then Some (CHR 0x0A)
      else if e = CHR ''r'' then Some (CHR 0x0D)
      else if e = CHR ''t'' then Some (CHR 0x09)
      else None)"

definition hex4 :: "char \<Rightarrow> char \<Rightarrow> char \<Rightarrow> char \<Rightarrow> char option" where
  "hex4 a b c d =
     (case hex_value a of None \<Rightarrow> None | Some w \<Rightarrow>
      case hex_value b of None \<Rightarrow> None | Some x \<Rightarrow>
      case hex_value c of None \<Rightarrow> None | Some y \<Rightarrow>
      case hex_value d of None \<Rightarrow> None | Some z \<Rightarrow>
        Some (char_of (((w * 16 + x) * 16 + y) * 16 + z)))"

fun parse_chars :: "string \<Rightarrow> (string \<times> string) option" where
  "parse_chars [] = None"
| "parse_chars (c # cs) =
     (if c = CHR 0x22 then Some ([], cs)
      else if c = CHR 0x5C
      then (case cs of
              [] \<Rightarrow> None
            | e # cs' \<Rightarrow>
                if e = CHR ''u''
                then (case cs' of
                        a # b # c' # d # rest \<Rightarrow>
                          (case hex4 a b c' d of
                             None \<Rightarrow> None
                           | Some ch \<Rightarrow> map_option (\<lambda>(s, r). (ch # s, r)) (parse_chars rest))
                      | _ \<Rightarrow> None)
                else (case unescape e of
                        None \<Rightarrow> None
                      | Some ch \<Rightarrow> map_option (\<lambda>(s, r). (ch # s, r)) (parse_chars cs')))
      else if (of_char c :: nat) < 32 then None
      else map_option (\<lambda>(s, r). (c # s, r)) (parse_chars cs))"

definition parse_string :: "string \<Rightarrow> (string \<times> string) option" where
  "parse_string s =
     (case s of [] \<Rightarrow> None | c # cs \<Rightarrow> if c = CHR 0x22 then parse_chars cs else None)"

text \<open>\<open>expect l s\<close>: the text \<open>s\<close> without its beginning \<open>l\<close>, when it begins with \<open>l\<close>.\<close>

fun expect :: "string \<Rightarrow> string \<Rightarrow> string option" where
  "expect [] s = Some s"
| "expect (c # cs) [] = None"
| "expect (c # cs) (d # ds) = (if c = d then expect cs ds else None)"

text \<open>An integer is written in decimal digits, with a minus sign when negative.\<close>

definition is_digit :: "char \<Rightarrow> bool" where
  "is_digit c = (48 \<le> (of_char c :: nat) \<and> (of_char c :: nat) \<le> 57)"

definition digits_value :: "string \<Rightarrow> nat" where
  "digits_value ds = foldl (\<lambda>a d. 10 * a + (of_char d - 48)) 0 ds"

definition parse_nat :: "string \<Rightarrow> (nat \<times> string) option" where
  "parse_nat s =
     (if takeWhile is_digit s = [] then None
      else Some (digits_value (takeWhile is_digit s), dropWhile is_digit s))"

definition parse_int :: "string \<Rightarrow> (int \<times> string) option" where
  "parse_int s =
     (case s of
        [] \<Rightarrow> None
      | c # cs \<Rightarrow>
          if c = CHR ''-'' then map_option (\<lambda>(n, r). (- int n, r)) (parse_nat cs)
          else map_option (\<lambda>(n, r). (int n, r)) (parse_nat s))"

text \<open>
  An array of strings. The parser reads elements up to the closing bracket; the number
  of elements it reads is bounded by the length of the text.
\<close>

fun print_strings_tail :: "string list \<Rightarrow> string" where
  "print_strings_tail [] = '']''"
| "print_strings_tail (x # xs) = '','' @ print_string x @ print_strings_tail xs"

fun print_strings :: "string list \<Rightarrow> string" where
  "print_strings [] = ''[]''"
| "print_strings (x # xs) = ''['' @ print_string x @ print_strings_tail xs"

fun parse_strings_tail :: "nat \<Rightarrow> string \<Rightarrow> (string list \<times> string) option" where
  "parse_strings_tail 0 s = None"
| "parse_strings_tail (Suc n) [] = None"
| "parse_strings_tail (Suc n) (c # cs) =
     (if c = CHR '']'' then Some ([], cs)
      else if c = CHR '',''
      then (case parse_string cs of
              None \<Rightarrow> None
            | Some (x, r) \<Rightarrow> map_option (\<lambda>(xs, r'). (x # xs, r')) (parse_strings_tail n r))
      else None)"

definition parse_strings :: "string \<Rightarrow> (string list \<times> string) option" where
  "parse_strings s =
     (case expect ''[]'' s of
        Some r \<Rightarrow> Some ([], r)
      | None \<Rightarrow>
          (case expect ''['' s of
             None \<Rightarrow> None
           | Some r \<Rightarrow>
               (case parse_string r of
                  None \<Rightarrow> None
                | Some (x, r') \<Rightarrow>
                    map_option (\<lambda>(xs, r''). (x # xs, r'')) (parse_strings_tail (length r') r'))))"

text \<open>The \<open>headers\<close> object: each member a name and a string or an array of strings.\<close>

definition print_header_value :: "header_value \<Rightarrow> string" where
  "print_header_value h = (case h of HString s \<Rightarrow> print_string s | HArray xs \<Rightarrow> print_strings xs)"

definition parse_header_value :: "string \<Rightarrow> (header_value \<times> string) option" where
  "parse_header_value s =
     (case s of
        [] \<Rightarrow> None
      | c # cs \<Rightarrow>
          if c = CHR ''[''
          then map_option (\<lambda>(xs, r). (HArray xs, r)) (parse_strings s)
          else map_option (\<lambda>(x, r). (HString x, r)) (parse_string s))"

definition print_member :: "string \<times> header_value \<Rightarrow> string" where
  "print_member m = print_string (fst m) @ '':'' @ print_header_value (snd m)"

definition parse_member :: "string \<Rightarrow> ((string \<times> header_value) \<times> string) option" where
  "parse_member s =
     (case parse_string s of
        None \<Rightarrow> None
      | Some (k, r) \<Rightarrow>
          (case expect '':'' r of
             None \<Rightarrow> None
           | Some r' \<Rightarrow> map_option (\<lambda>(v, r''). ((k, v), r'')) (parse_header_value r')))"

fun print_members_tail :: "(string \<times> header_value) list \<Rightarrow> string" where
  "print_members_tail [] = ''}''"
| "print_members_tail (m # ms) = '','' @ print_member m @ print_members_tail ms"

fun print_headers :: "(string \<times> header_value) list \<Rightarrow> string" where
  "print_headers [] = ''{}''"
| "print_headers (m # ms) = ''{'' @ print_member m @ print_members_tail ms"

fun parse_members_tail ::
  "nat \<Rightarrow> string \<Rightarrow> ((string \<times> header_value) list \<times> string) option" where
  "parse_members_tail 0 s = None"
| "parse_members_tail (Suc n) [] = None"
| "parse_members_tail (Suc n) (c # cs) =
     (if c = CHR ''}'' then Some ([], cs)
      else if c = CHR '',''
      then (case parse_member cs of
              None \<Rightarrow> None
            | Some (m, r) \<Rightarrow> map_option (\<lambda>(ms, r'). (m # ms, r')) (parse_members_tail n r))
      else None)"

definition parse_headers :: "string \<Rightarrow> ((string \<times> header_value) list \<times> string) option" where
  "parse_headers s =
     (case expect ''{}'' s of
        Some r \<Rightarrow> Some ([], r)
      | None \<Rightarrow>
          (case expect ''{'' s of
             None \<Rightarrow> None
           | Some r \<Rightarrow>
               (case parse_member r of
                  None \<Rightarrow> None
                | Some (m, r') \<Rightarrow>
                    map_option (\<lambda>(ms, r''). (m # ms, r'')) (parse_members_tail (length r') r'))))"

text \<open>The name of a member with its colon, and the two objects.\<close>

definition field :: "string \<Rightarrow> string" where
  "field n = CHR 0x22 # n @ [CHR 0x22, CHR '':'']"

definition print_value :: "cache_value \<Rightarrow> string" where
  "print_value v =
     ''{'' @ field ''kind'' @ print_string (kind v) @
     '','' @ field ''html'' @ print_string (html v) @
     '','' @ field ''pageData'' @ print_string (pageData v) @
     (case headers v of None \<Rightarrow> [] | Some hs \<Rightarrow> '','' @ field ''headers'' @ print_headers hs) @
     ''}''"

definition print_entry :: "cache_entry \<Rightarrow> string" where
  "print_entry e =
     ''{'' @ field ''value'' @
     (case entry_value e of None \<Rightarrow> ''null'' | Some v \<Rightarrow> print_value v) @
     '','' @ field ''lastModified'' @ show_int (lastModified e) @
     (case tags e of None \<Rightarrow> [] | Some ts \<Rightarrow> '','' @ field ''tags'' @ print_strings ts) @
     (case revalidate e of None \<Rightarrow> [] | Some r \<Rightarrow> '','' @ field ''revalidate'' @ show_int r) @
     ''}''"

text \<open>An optional member: it is there when the text goes on with a comma and its name.\<close>

definition optional ::
  "string \<Rightarrow> (string \<Rightarrow> ('a \<times> string) option) \<Rightarrow> string \<Rightarrow> ('a option \<times> string) option" where
  "optional n p s =
     (case expect ('','' @ field n) s of
        None \<Rightarrow> Some (None, s)
      | Some r \<Rightarrow> map_option (\<lambda>(x, r'). (Some x, r')) (p r))"

definition parse_value :: "string \<Rightarrow> (cache_value \<times> string) option" where
  "parse_value s =
     (case expect (''{'' @ field ''kind'') s of None \<Rightarrow> None | Some r0 \<Rightarrow>
      case parse_string r0 of None \<Rightarrow> None | Some (k, r1) \<Rightarrow>
      case expect ('','' @ field ''html'') r1 of None \<Rightarrow> None | Some r2 \<Rightarrow>
      case parse_string r2 of None \<Rightarrow> None | Some (h, r3) \<Rightarrow>
      case expect ('','' @ field ''pageData'') r3 of None \<Rightarrow> None | Some r4 \<Rightarrow>
      case parse_string r4 of None \<Rightarrow> None | Some (p, r5) \<Rightarrow>
      case optional ''headers'' parse_headers r5 of None \<Rightarrow> None | Some (hs, r6) \<Rightarrow>
      case expect ''}'' r6 of None \<Rightarrow> None | Some r7 \<Rightarrow>
        Some (\<lparr>kind = k, html = h, pageData = p, headers = hs\<rparr>, r7))"

definition parse_entry_value :: "string \<Rightarrow> (cache_value option \<times> string) option" where
  "parse_entry_value s =
     (case expect ''null'' s of
        Some r \<Rightarrow> Some (None, r)
      | None \<Rightarrow> map_option (\<lambda>(v, r). (Some v, r)) (parse_value s))"

definition parse_entry :: "string \<Rightarrow> (cache_entry \<times> string) option" where
  "parse_entry s =
     (case expect (''{'' @ field ''value'') s of None \<Rightarrow> None | Some r0 \<Rightarrow>
      case parse_entry_value r0 of None \<Rightarrow> None | Some (v, r1) \<Rightarrow>
      case expect ('','' @ field ''lastModified'') r1 of None \<Rightarrow> None | Some r2 \<Rightarrow>
      case parse_int r2 of None \<Rightarrow> None | Some (lm, r3) \<Rightarrow>
      case optional ''tags'' parse_strings r3 of None \<Rightarrow> None | Some (ts, r4) \<Rightarrow>
      case optional ''revalidate'' parse_int r4 of None \<Rightarrow> None | Some (rv, r5) \<Rightarrow>
      case expect ''}'' r5 of None \<Rightarrow> None | Some r6 \<Rightarrow>
        Some (\<lparr>entry_value = v, lastModified = lm, tags = ts, revalidate = rv\<rparr>, r6))"

definition JSON :: json_codec where
  "JSON = \<lparr>JSON_stringify = print_entry,
           JSON_parse = (\<lambda>s. case parse_entry s of
                                 None \<Rightarrow> Inl (Error ''SyntaxError'' ''Unexpected token in JSON'')
                               | Some (e, r) \<Rightarrow>
                                   if r = [] then Inr e
                                   else Inl (Error ''SyntaxError'' ''Unexpected token in JSON''))\<rparr>"

section \<open>Sample data\<close>

definition sample_entry :: "int option \<Rightarrow> int \<Rightarrow> cache_entry" where
  "sample_entry r lm = \<lparr>entry_value = None, lastModified = lm, tags = None, revalidate = r\<rparr>"

text \<open>A cookie parser that knows the header \<open>a=1; b=2\<close>.\<close>

definition sample_cookie_parse :: "string \<Rightarrow> (string \<rightharpoonup> string)" where
  "sample_cookie_parse h =
     (if h = ''a=1; b=2'' then map_of [(''a'', ''1''), (''b'', ''2'')] else Map.empty)"

definition sample_handler :: cache_handler where
  "sample_handler = \<lparr>cookieCacheKey = ''cookie(locale=fr)'', queryCacheKey = [], device = None,
     handlerServerAppPath = ''/srv''\<rparr>"

definition sample_context :: cache_context where
  "sample_context = \<lparr>isAppRouter = True, serverAppPath = []\<rparr>"

definition sample_redis :: redis_client where
  "sample_redis = \<lparr>
     client_scan = (\<lambda>cursor pat count.
        if cursor = 0 then Inr (17, [''page//a'', ''page//b''])
        else if cursor = 17 then Inr (0, [''page//c''])
        else Inl (Error ''ERR'' ''invalid cursor'')),
     client_unlink = (\<lambda>ks. Inr (length ks))\<rparr>"

definition tagged_object :: "string \<Rightarrow> string list \<Rightarrow> s3_object" where
  "tagged_object body tgs =
     \<lparr>Body = Some body, ContentType = None, CacheControl = None,
      TagSet = parse_tagging (buildTagKeys (Some (TagsArray tgs))), Metadata = []\<rparr>"

definition sample_store :: "(string \<times> s3_object) list \<Rightarrow> nat \<Rightarrow> s3_state" where
  "sample_store obs n = \<lparr>objects = obs, page_size = n, faults = (\<lambda>op. None), calls = []\<rparr>"

definition two_variants :: s3_state where
  "two_variants = sample_store [(''page/a.json'', tagged_object ''{}'' [''t'']),
                                (''page/b.json'', tagged_object ''{}'' [''t''])] 1000"

definition page_variants :: s3_state where
  "page_variants = sample_store
     [(''page/a.json'', tagged_object ''{}'' [''t'']),
      (''page/a.html'', tagged_object ''<p>a</p>'' [''t'']),
      (''page/b.json'', tagged_object ''{}'' [''t'']),
      (''page/sub/a.json'', tagged_object ''{}'' [''t'']),
      (''other/a.json'', tagged_object ''{}'' [''t''])] 2"

definition sample_codec :: json_codec where
  "sample_codec = \<lparr>JSON_stringify = (\<lambda>e. ''{}''),
     JSON_parse = (\<lambda>s. if s = ''{}'' then Inr (sample_entry None 0)
                        else Inl (Error ''SyntaxError'' ''Unexpected token''))\<rparr>"

definition failing_store :: "string \<Rightarrow> s3_state" where
  "failing_store n = \<lparr>objects = [], page_size = 1000,
     faults = (\<lambda>op. Some (Error n ''the service answered with an error'')), calls = []\<rparr>"

definition page_value :: cache_value where
  "page_value = \<lparr>kind = ''PAGE'', html = ''<p>hello</p>'', pageData = ''0:[[\"children\"]]'',
     headers = Some [(''x-next-cache-tags'', HString ''t,u'')]\<rparr>"

definition page_entry :: cache_entry where
  "page_entry = \<lparr>entry_value = Some page_value, lastModified = 1000, tags = None,
     revalidate = Some 60\<rparr>"

definition quoted_value :: cache_value where
  "quoted_value = \<lparr>kind = ''PAGE'', html = ''<p class=\"a\">hi</p>'' @ [CHR 0x0A],
     pageData = ''0:[\"$\",\"p\"]'', headers = Some [(''x-next-cache-tags'', HString ''t,u''), (''set-cookie'', HArray [''a=1'', ''b=2''])]\<rparr>"

definition quoted_entry :: cache_entry where
  "quoted_entry = \<lparr>entry_value = Some quoted_value, lastModified = 1000, tags = Some [],
     revalidate = Some 60\<rparr>"

definition rsc_variants :: s3_state where
  "rsc_variants = sample_store
     [(''page/b.json'', tagged_object ''{}'' []),
      (''page/b.rsc'', tagged_object ''0:[]'' []),
      (''page/c.json'', tagged_object ''{}'' [])] 1000"

definition path_store :: s3_state where
  "path_store = sample_store
     [(''/page/a.json'', tagged_object ''{}'' []),
      (''/other/b.json'', tagged_object ''{}'' [''_N_T_/page''])] 1000"

section \<open>CacheHandler: theorems\<close>

text \<open>
  What the reducer of \<open>buildCacheKey\<close> computes for any allow-list: with no allowed name
  present the segment is empty, and otherwise it holds the last present pair only,
  after a dash when there are two or more.
\<close>

lemma foldl_last_pair:
  assumes p: "\<And>a k. P k \<Longrightarrow> f a k = (if a \<noteq> [] then ''-'' else []) @ g k"
    and n: "\<And>a k. \<not> P k \<Longrightarrow> f a k = a"
    and g: "\<And>k. g k \<noteq> []"
  shows "foldl f [] keys =
     (if filter P keys = [] then []
      else (if 2 \<le> length (filter P keys) then ''-'' else []) @ g (last (filter P keys)))"
proof (induction keys rule: rev_induct)
  case Nil
  show ?case by simp
next
  case (snoc k keys)
  have acc: "foldl f [] keys = [] \<longleftrightarrow> filter P keys = []"
    using snoc.IH g by simp
  show ?case
  proof (cases "P k")
    case False
    with snoc.IH show ?thesis by (simp add: n)
  next
    case True
    have len: "2 \<le> length (filter P keys @ [k]) \<longleftrightarrow> filter P keys \<noteq> []"
      by (cases "filter P keys") simp_all
    show ?thesis
      using True acc len by (simp add: p)
  qed
qed

lemma buildCacheKey_last_pair:
  "buildCacheKey keys data prefix =
     (let ps = filter (\<lambda>k. data k \<noteq> None \<and> data k \<noteq> Some []) keys
      in if ps = [] then []
         else prefix @ ''('' @ (if 2 \<le> length ps then ''-'' else []) @
              last ps @ ''='' @ the (data (last ps)) @ '')'')"
proof -
  have "foldl (buildCacheKey_step data) [] keys =
     (if filter (\<lambda>k. data k \<noteq> None \<and> data k \<noteq> Some []) keys = [] then []
      else (if 2 \<le> length (filter (\<lambda>k. data k \<noteq> None \<and> data k \<noteq> Some []) keys) then ''-'' else []) @
           (\<lambda>k. k @ ''='' @ the (data k)) (last (filter (\<lambda>k. data k \<noteq> None \<and> data k \<noteq> Some []) keys)))"
    by (rule foldl_last_pair) (auto simp: buildCacheKey_step_def split: option.splits)
  then show ?thesis
    by (cases "keys = []") (simp_all add: buildCacheKey_def Let_def)
qed

text \<open>
  Claim C2. With the allow-list \<open>['a', 'b']\<close> and the cookies \<open>a=1; b=2\<close> the claim
  asks for the segment \<open>cookie(a=1-b=2)\<close>. The reducer of \<open>buildCacheKey\<close> returns
  the separator and the current pair without the accumulated string, so the segment
  holds the last pair only, after a dash.
\<close>

theorem C2_two_cookies:
  "buildCookiesCacheKey sample_cookie_parse [''a'', ''b''] (Some ''a=1; b=2'') = ''cookie(-b=2)''"
  by (simp add: buildCookiesCacheKey_def buildCacheKey_def buildCacheKey_step_def
        sample_cookie_parse_def)

text \<open>
  Claim C3, as stated, at an entry with \<open>revalidate = 0\<close>, \<open>lastModified = 0\<close> and the
  current time 1: the time exceeds \<open>lastModified + revalidate * 1000\<close>, and the entry is
  not reported stale.
\<close>

theorem C3_counterexample:
  "checkIsStaleCache 1 (Some (sample_entry (Some 0) 0)) \<noteq> ((1::int) > 0 + 0 * 1000)"
  by (simp add: checkIsStaleCache_def sample_entry_def)

text \<open>
  Claim C3, amended. \<open>checkIsStaleCache\<close> is false for \<open>null\<close> and for an entry with no
  \<open>revalidate\<close>; for an entry whose \<open>revalidate\<close> is a number other than 0 it is true
  exactly when the current time is strictly greater than
  \<open>lastModified + revalidate * 1000\<close>, so at that very instant the entry is not stale; for
  an entry whose \<open>revalidate\<close> is 0 it is false.
\<close>

theorem C3_checkIsStaleCache:
  "\<not> checkIsStaleCache now None \<and>
   (revalidate e = None \<longrightarrow> \<not> checkIsStaleCache now (Some e)) \<and>
   (\<forall>r. revalidate e = Some r \<and> r \<noteq> 0 \<longrightarrow>
      (checkIsStaleCache now (Some e) \<longleftrightarrow> now > lastModified e + r * 1000)) \<and>
   (\<forall>r. revalidate e = Some r \<and> r \<noteq> 0 \<longrightarrow>
      \<not> checkIsStaleCache (lastModified e + r * 1000) (Some e)) \<and>
   (revalidate e = Some 0 \<longrightarrow> \<not> checkIsStaleCache now (Some e))"
  by (simp add: checkIsStaleCache_def)

text \<open>The entry \<open>{revalidate: 60, lastModified: 1000}\<close> just before, at and after the boundary.\<close>

theorem C3_checkIsStaleCache_witness:
  "checkIsStaleCache 61001 (Some (sample_entry (Some 60) 1000)) \<and>
   \<not> checkIsStaleCache 60999 (Some (sample_entry (Some 60) 1000)) \<and>
   \<not> checkIsStaleCache 61000 (Some (sample_entry (Some 60) 1000)) \<and>
   \<not> checkIsStaleCache 61001 (Some (sample_entry None 1000)) \<and>
   \<not> checkIsStaleCache 61001 (Some (sample_entry (Some 0) 1000))"
  using C3_checkIsStaleCache [of 61001 "sample_entry (Some 60) 1000"]
        C3_checkIsStaleCache [of 60999 "sample_entry (Some 60) 1000"]
        C3_checkIsStaleCache [of 61001 "sample_entry None 1000"]
        C3_checkIsStaleCache [of 61001 "sample_entry (Some 0) 1000"]
  by (simp add: sample_entry_def)

text \<open>
  Claim C10. An entry whose \<open>revalidate\<close> is 0 is not stale at any current time, and
  \<open>CacheHandler.get\<close> returns it whenever the strategy returns it.
\<close>

theorem C10_revalidate_zero_never_stale:
  assumes "revalidate e = Some 0"
  shows "\<not> checkIsStaleCache now (Some e) \<and>
         (cache_get (getPageCacheKey h key) (ctx\<lparr>serverAppPath := handlerServerAppPath h\<rparr>) = Inr (Some e)
            \<longrightarrow> CacheHandler_get h cache_get now key ctx = Inr (Some e))"
  using assms by (simp add: checkIsStaleCache_def CacheHandler_get_def)

text \<open>An entry with \<open>revalidate = 0\<close> written at time 1000 and read much later.\<close>

theorem C10_witness:
  "revalidate (sample_entry (Some 0) 1000) = Some 0 \<and>
   \<not> checkIsStaleCache 999999999 (Some (sample_entry (Some 0) 1000)) \<and>
   CacheHandler_get sample_handler (\<lambda>k c. if k = ''index-cookie(locale=fr)'' then Inr (Some (sample_entry (Some 0) 1000)) else Inr None)
      999999999 ''index'' sample_context = Inr (Some (sample_entry (Some 0) 1000))"
  using C10_revalidate_zero_never_stale [of "sample_entry (Some 0) 1000" 999999999
     "\<lambda>k c. if k = ''index-cookie(locale=fr)'' then Inr (Some (sample_entry (Some 0) 1000)) else Inr None"
     sample_handler "''index''" sample_context]
  by (simp add: sample_entry_def sample_handler_def sample_context_def getPageCacheKey_def)

section \<open>RedisCache: theorems\<close>

text \<open>The scan loop, along a run that comes back to cursor 0.\<close>

lemma scan_loop_run:
  "scan_run c (key @ ''//*'') lim cur rs \<Longrightarrow>
   scan_loop c key lim cur acc ops =
     Some (Inr (acc @ concat (map snd rs)),
           ops @ map (\<lambda>cu. Scan cu (key @ ''//*'') lim) (cur # map fst (butlast rs)))"
proof (induction rs arbitrary: cur acc ops)
  case Nil
  then show ?case by simp
next
  case (Cons r rs)
  show ?case
  proof (cases rs)
    case Nil
    with Cons.prems show ?thesis
      by (subst scan_loop.simps) simp
  next
    case (Cons r' rs')
    with Cons.prems have a: "client_scan c cur (key @ ''//*'') lim = Inr r" "fst r \<noteq> 0"
      "scan_run c (key @ ''//*'') lim (fst r) rs" by simp_all
    show ?thesis
      using a(1,2) Cons.IH [OF a(3), of "acc @ snd r" "ops @ [Scan cur (key @ ''//*'') lim]"] Cons
      by (subst scan_loop.simps) simp
  qed
qed

text \<open>
  Claim C9. With a cache key, \<open>deleteAllByKeyMatch\<close> issues the single call
  \<open>unlink('<key>//<cacheKey>')\<close> and no scan. With none, it scans with the pattern
  \<open><key>//*\<close> from cursor 0, following the cursors the server returns until 0 comes
  back, and then issues one \<open>unlink\<close> of all the keys of all the answers, in order, or no
  \<open>unlink\<close> when there is no key. The call resolves unless the \<open>unlink\<close> rejects.
\<close>

theorem C9_Redis_deleteAllByKeyMatch:
  "(cacheKey \<noteq> [] \<longrightarrow>
      Redis_deleteAllByKeyMatch c lim key cacheKey =
        Some (map_sum id (\<lambda>n. ()) (client_unlink c [key @ ''//'' @ cacheKey]),
              [Unlink [key @ ''//'' @ cacheKey]])) \<and>
   (cacheKey = [] \<and> scan_run c (key @ ''//*'') lim 0 rs \<longrightarrow>
      Redis_deleteAllByKeyMatch c lim key cacheKey =
        Some (if concat (map snd rs) = [] then Inr ()
              else map_sum id (\<lambda>n. ()) (client_unlink c (concat (map snd rs))),
              map (\<lambda>cu. Scan cu (key @ ''//*'') lim) (0 # map fst (butlast rs)) @
              (if concat (map snd rs) = [] then [] else [Unlink (concat (map snd rs))])))"
proof (intro conjI impI)
  assume "cacheKey \<noteq> []"
  then show "Redis_deleteAllByKeyMatch c lim key cacheKey =
        Some (map_sum id (\<lambda>n. ()) (client_unlink c [key @ ''//'' @ cacheKey]),
              [Unlink [key @ ''//'' @ cacheKey]])"
    by (simp add: Redis_deleteAllByKeyMatch_def split: sum.splits)
next
  assume a: "cacheKey = [] \<and> scan_run c (key @ ''//*'') lim 0 rs"
  then have run: "scan_loop c key lim 0 [] [] =
     Some (Inr (concat (map snd rs)),
           map (\<lambda>cu. Scan cu (key @ ''//*'') lim) (0 # map fst (butlast rs)))"
    using scan_loop_run [of c key lim 0 rs "[]" "[]"] by simp
  show "Redis_deleteAllByKeyMatch c lim key cacheKey =
        Some (if concat (map snd rs) = [] then Inr ()
              else map_sum id (\<lambda>n. ()) (client_unlink c (concat (map snd rs))),
              map (\<lambda>cu. Scan cu (key @ ''//*'') lim) (0 # map fst (butlast rs)) @
              (if concat (map snd rs) = [] then [] else [Unlink (concat (map snd rs))]))"
  proof (cases "concat (map snd rs) = []")
    case True
    with a run show ?thesis
      unfolding Redis_deleteAllByKeyMatch_def by simp
  next
    case False
    with a run show ?thesis
      unfolding Redis_deleteAllByKeyMatch_def by (simp split: sum.splits)
  qed
qed

text \<open>A server that answers in two pages.\<close>

theorem C9_witness:
  "Redis_deleteAllByKeyMatch sample_redis 1000 ''page'' ''index'' =
     Some (Inr (), [Unlink [''page//index'']]) \<and>
   Redis_deleteAllByKeyMatch sample_redis 1000 ''page'' [] =
     Some (Inr (), [Scan 0 ''page//*'' 1000, Scan 17 ''page//*'' 1000,
                    Unlink [''page//a'', ''page//b'', ''page//c'']])"
  using C9_Redis_deleteAllByKeyMatch [of "''index''" sample_redis 1000 "''page''" "[]"]
        C9_Redis_deleteAllByKeyMatch [of "[]" sample_redis 1000 "''page''"
           "[(17, [''page//a'', ''page//b'']), (0, [''page//c''])]"]
  by (simp add: sample_redis_def)

section \<open>The object store: lemmas\<close>

lemma page_limit_pos: "0 < page_limit st"
  by (simp add: page_limit_def)

lemma page_limit_issue: "page_limit (issue op st) = page_limit st"
  by (simp add: page_limit_def issue_def)

lemma issue_fields:
  "objects (issue op st) = objects st" "faults (issue op st) = faults st"
  "page_size (issue op st) = page_size st" "calls (issue op st) = calls st @ [op]"
  by (simp_all add: issue_def)

lemma client_listObjectsV2_fault:
  "faults st (ListObjectsV2 req) = Some e \<Longrightarrow>
   client_listObjectsV2 req st = (Inl e, issue (ListObjectsV2 req) st)"
  by (simp add: client_listObjectsV2_def)

lemma client_listObjectsV2_last:
  "faults st (ListObjectsV2 req) = None \<Longrightarrow> \<not> page_limit st < length (listing st req) \<Longrightarrow>
   client_listObjectsV2 req st = (Inr (map Some (listing st req), None), issue (ListObjectsV2 req) st)"
  by (simp add: client_listObjectsV2_def Let_def)

lemma client_listObjectsV2_more:
  "faults st (ListObjectsV2 req) = None \<Longrightarrow> page_limit st < length (listing st req) \<Longrightarrow>
   client_listObjectsV2 req st =
     (Inr (map Some (take (page_limit st) (listing st req)),
           Some (After (listing st req ! (page_limit st - 1)))),
      issue (ListObjectsV2 req) st)"
  by (simp add: client_listObjectsV2_def Let_def)

lemma visible_token: "visible (req\<lparr>ContinuationToken := x\<rparr>) k = visible req k"
  by (simp add: visible_def)

lemma listing_issue: "listing (issue op st) req = listing st req"
  by (simp add: listing_def issue_def)

lemma set_listing:
  "set (listing st req) =
     {k \<in> fst ` set (objects st). visible req k \<and> after (ContinuationToken req) k}"
  by (auto simp: listing_def)

lemma sorted_listing: "sorted_wrt (<) (listing st req)"
  unfolding listing_def
  by (rule sorted_wrt_filter) (simp add: strict_sorted_iff)

text \<open>The keys of a page and the keys after its token are the keys of the listing.\<close>

lemma listing_pages:
  assumes "0 < n" "n < length (listing st req)"
  shows "set (take n (listing st req)) \<union>
         set (listing st (req\<lparr>ContinuationToken := Some (After (listing st req ! (n - 1)))\<rparr>))
         = set (listing st req)"
proof -
  let ?L = "listing st req"
  let ?t = "?L ! (n - 1)"
  have tL: "?t \<in> set ?L" using assms by simp
  have aft: "after (ContinuationToken req) k" if "?t < k" for k
  proof (cases "ContinuationToken req")
    case None
    then show ?thesis by simp
  next
    case (Some tok)
    obtain t0 where "tok = After t0" by (cases tok)
    with Some tL that show ?thesis by (auto simp: set_listing)
  qed
  have next_set: "set (listing st (req\<lparr>ContinuationToken := Some (After ?t)\<rparr>)) = {k \<in> set ?L. ?t < k}"
    using aft by (auto simp: set_listing visible_token)
  have "k \<in> set (take n ?L) \<or> ?t < k" if "k \<in> set ?L" for k
  proof -
    from that obtain i where i: "i < length ?L" "?L ! i = k"
      by (auto simp: in_set_conv_nth)
    show ?thesis
    proof (cases "i < n")
      case True
      with i have "k \<in> set (take n ?L)"
        by (auto simp: in_set_conv_nth intro!: exI [of _ i])
      then show ?thesis by simp
    next
      case False
      with assms have "n - 1 < i" by simp
      from sorted_wrt_nth_less [OF sorted_listing this i(1)] i show ?thesis by simp
    qed
  qed
  moreover have "set (take n ?L) \<subseteq> set ?L" by (rule set_take_subset)
  ultimately show ?thesis
    unfolding next_set by blast
qed

lemma map_of_filter_fst:
  "map_of (filter (\<lambda>kv. P (fst kv)) al) k = (if P k then map_of al k else None)"
  by (induction al) auto

section \<open>S3Cache: get\<close>

text \<open>
  Claim C7. \<open>get\<close> issues one call, \<open>getObject\<close> of \<open><pageKey>/<cacheKey>.json\<close>, and
  changes no object. When the call fails with an error named \<open>NotFound\<close> or \<open>NoSuchKey\<close>
  (as it does for a key the bucket does not hold), or answers with an object that has no
  body, \<open>get\<close> resolves with \<open>null\<close>. When the call fails with an error of any other name,
  \<open>get\<close> rejects with that same error.
\<close>

theorem C7_get:
  "calls (snd (S3Cache_get J pageKey cacheKey st)) =
     calls st @ [GetObject (pageKey @ ''/'' @ cacheKey @ ''.json'')] \<and>
   objects (snd (S3Cache_get J pageKey cacheKey st)) = objects st \<and>
   (\<forall>e. fst (client_getObject (pageKey @ ''/'' @ cacheKey @ ''.json'') st) = Inl e \<and>
        (name e = ''NotFound'' \<or> name e = ''NoSuchKey'') \<longrightarrow>
        fst (S3Cache_get J pageKey cacheKey st) = Inr None) \<and>
   (\<forall>got. fst (client_getObject (pageKey @ ''/'' @ cacheKey @ ''.json'') st) = Inr got \<and>
        Body got = None \<longrightarrow>
        fst (S3Cache_get J pageKey cacheKey st) = Inr None) \<and>
   (\<forall>e. fst (client_getObject (pageKey @ ''/'' @ cacheKey @ ''.json'') st) = Inl e \<and>
        name e \<noteq> ''NotFound'' \<and> name e \<noteq> ''NoSuchKey'' \<longrightarrow>
        fst (S3Cache_get J pageKey cacheKey st) = Inl e) \<and>
   (faults st (GetObject (pageKey @ ''/'' @ cacheKey @ ''.json'')) = None \<and>
    map_of (objects st) (pageKey @ ''/'' @ cacheKey @ ''.json'') = None \<longrightarrow>
        fst (S3Cache_get J pageKey cacheKey st) = Inr None)"
proof -
  let ?k = "pageKey @ ''/'' @ cacheKey @ ''.json''"
  obtain r st' where g: "client_getObject ?k st = (r, st')"
    by (cases "client_getObject ?k st")
  have st': "st' = issue (GetObject ?k) st"
    using g by (auto simp: client_getObject_def split: option.splits)
  have miss: "r = Inl NoSuchKey"
    if "faults st (GetObject ?k) = None" "map_of (objects st) ?k = None"
    using g that by (simp add: client_getObject_def)
  show ?thesis
    using g st' miss
    by (cases r)
       (auto simp: S3Cache_get_def NOT_FOUND_ERROR_def issue_def NoSuchKey_def
             split: option.splits sum.splits)
qed

text \<open>
  An empty bucket, a service that fails with \<open>NotFound\<close>, one that fails with
  \<open>AccessDenied\<close>, an object without a body, and a stored entry.
\<close>

theorem C7_get_witness:
  "S3Cache_get sample_codec ''page'' ''a'' (sample_store [] 1000) =
     (Inr None, (sample_store [] 1000)\<lparr>calls := [GetObject ''page/a.json'']\<rparr>) \<and>
   fst (S3Cache_get sample_codec ''page'' ''a'' (failing_store ''NotFound'')) = Inr None \<and>
   fst (S3Cache_get sample_codec ''page'' ''a'' (failing_store ''AccessDenied'')) =
     Inl (Error ''AccessDenied'' ''the service answered with an error'') \<and>
   fst (S3Cache_get sample_codec ''page'' ''a''
          (sample_store [(''page/a.json'', (tagged_object [] [])\<lparr>Body := None\<rparr>)] 1000)) = Inr None \<and>
   fst (S3Cache_get sample_codec ''page'' ''a'' two_variants) = Inr (Some (sample_entry None 0))"
  using C7_get [of sample_codec "''page''" "''a''" "sample_store [] 1000"]
        C7_get [of sample_codec "''page''" "''a''" "failing_store ''NotFound''"]
        C7_get [of sample_codec "''page''" "''a''" "failing_store ''AccessDenied''"]
        C7_get [of sample_codec "''page''" "''a''"
                   "sample_store [(''page/a.json'', (tagged_object [] [])\<lparr>Body := None\<rparr>)] 1000"]
  by (simp add: S3Cache_get_def client_getObject_def sample_store_def failing_store_def
        issue_def NoSuchKey_def NOT_FOUND_ERROR_def tagged_object_def two_variants_def
        sample_codec_def)

section \<open>S3Cache: chunked deletion\<close>

lemma chunkArray_concat: "0 < n \<Longrightarrow> concat (chunkArray xs n) = xs"
proof (induction xs n rule: chunkArray.induct)
  case (1 xs n)
  then show ?case
    by (subst chunkArray.simps) auto
qed

lemma chunkArray_lengths: "list_all (\<lambda>c. c \<noteq> [] \<and> length c \<le> n) (chunkArray xs n)"
proof (induction xs n rule: chunkArray.induct)
  case (1 xs n)
  then show ?case
    by (subst chunkArray.simps) auto
qed

lemma client_deleteObjects_fields:
  "faults (snd (client_deleteObjects ks st)) = faults st"
  "page_size (snd (client_deleteObjects ks st)) = page_size st"
  "calls (snd (client_deleteObjects ks st)) = calls st @ [DeleteObjects ks]"
  "objects (snd (client_deleteObjects ks st)) =
     (if faults st (DeleteObjects ks) = None
      then filter (\<lambda>kv. fst kv \<notin> set ks) (objects st) else objects st)"
  by (auto simp: client_deleteObjects_def issue_def split: option.splits)

lemma deleteObjects_foldl:
  "faults (foldl (\<lambda>st' chunk. snd (client_deleteObjects chunk st')) st chunks) = faults st \<and>
   page_size (foldl (\<lambda>st' chunk. snd (client_deleteObjects chunk st')) st chunks) = page_size st \<and>
   calls (foldl (\<lambda>st' chunk. snd (client_deleteObjects chunk st')) st chunks) =
     calls st @ map DeleteObjects chunks \<and>
   objects (foldl (\<lambda>st' chunk. snd (client_deleteObjects chunk st')) st chunks) =
     filter (\<lambda>kv. \<not> list_ex (\<lambda>c. faults st (DeleteObjects c) = None \<and> fst kv \<in> set c) chunks)
       (objects st)"
proof (induction chunks arbitrary: st)
  case Nil
  show ?case by simp
next
  case (Cons c chunks)
  show ?case
    unfolding foldl_Cons
    by (simp add: Cons.IH [of "snd (client_deleteObjects c st)"] client_deleteObjects_fields)
qed

lemma S3Cache_deleteObjects_objects:
  "map_of (objects (snd (S3Cache_deleteObjects keysToDelete st))) k =
     (if list_ex (\<lambda>chunk. faults st (DeleteObjects chunk) = None \<and> k \<in> set chunk)
           (chunkArray keysToDelete CHUNK_LIMIT)
      then None else map_of (objects st) k)"
  using deleteObjects_foldl [of st "chunkArray keysToDelete CHUNK_LIMIT"]
    map_of_filter_fst [of "\<lambda>k. \<not> list_ex (\<lambda>chunk. faults st (DeleteObjects chunk) = None \<and> k \<in> set chunk)
           (chunkArray keysToDelete CHUNK_LIMIT)" "objects st" k]
  by (simp add: S3Cache_deleteObjects_def)

lemma in_chunkArray:
  "list_ex (\<lambda>chunk. k \<in> set chunk) (chunkArray keysToDelete CHUNK_LIMIT) \<longleftrightarrow> k \<in> set keysToDelete"
proof -
  have "set (concat (chunkArray keysToDelete CHUNK_LIMIT)) = set keysToDelete"
    by (simp add: chunkArray_concat CHUNK_LIMIT_def)
  then show ?thesis
    by (auto simp: list_ex_iff)
qed

text \<open>
  Claim C8. \<open>deleteObjects\<close> cuts the keys into chunks of at most 1000 keys, none empty,
  that together are the given keys in order. It issues one \<open>deleteObjects\<close> call of the
  client per chunk, in order, whatever the other calls do, and resolves. The keys of the
  chunks whose call succeeds are gone afterwards, those of a chunk whose call fails stay.
  \<open>revalidateTag\<close> and \<open>deleteAllByKeyMatch\<close> reject only when their listing loop does,
  never for a failed chunk. The parallel dispatch of the calls is the order-free reading
  of this: each call is issued and none waits for another.
\<close>

theorem C8_deleteObjects:
  "concat (chunkArray keysToDelete CHUNK_LIMIT) = keysToDelete \<and>
   list_all (\<lambda>chunk. chunk \<noteq> [] \<and> length chunk \<le> 1000) (chunkArray keysToDelete CHUNK_LIMIT) \<and>
   fst (S3Cache_deleteObjects keysToDelete st) = Inr () \<and>
   calls (snd (S3Cache_deleteObjects keysToDelete st)) =
     calls st @ map DeleteObjects (chunkArray keysToDelete CHUNK_LIMIT) \<and>
   objects (snd (S3Cache_deleteObjects keysToDelete st)) =
     filter (\<lambda>kv. \<not> list_ex (\<lambda>chunk. faults st (DeleteObjects chunk) = None \<and> fst kv \<in> set chunk)
                       (chunkArray keysToDelete CHUNK_LIMIT))
       (objects st) \<and>
   fst (S3Cache_revalidateTag tag allowCacheKeys st) =
     map_sum id (\<lambda>ks. ()) (fst (revalidateTag_loop tag allowCacheKeys None [] st)) \<and>
   fst (S3Cache_deleteAllByKeyMatch pageKey allowCacheKeys st) =
     map_sum id (\<lambda>ks. ()) (fst (deleteAllByKeyMatch_loop pageKey None [] st))"
proof -
  have a: "concat (chunkArray keysToDelete CHUNK_LIMIT) = keysToDelete"
    by (rule chunkArray_concat) (simp add: CHUNK_LIMIT_def)
  have b: "list_all (\<lambda>chunk. chunk \<noteq> [] \<and> length chunk \<le> 1000) (chunkArray keysToDelete CHUNK_LIMIT)"
    using chunkArray_lengths [of CHUNK_LIMIT keysToDelete] by (simp add: CHUNK_LIMIT_def)
  have c: "fst (S3Cache_deleteObjects ks s) = Inr ()" for ks s
    by (simp add: S3Cache_deleteObjects_def)
  have d: "fst (S3Cache_revalidateTag tag allowCacheKeys st) =
     map_sum id (\<lambda>ks. ()) (fst (revalidateTag_loop tag allowCacheKeys None [] st))"
    by (cases "revalidateTag_loop tag allowCacheKeys None [] st")
       (auto simp: S3Cache_revalidateTag_def c split: sum.splits)
  have e: "fst (S3Cache_deleteAllByKeyMatch pageKey allowCacheKeys st) =
     map_sum id (\<lambda>ks. ()) (fst (deleteAllByKeyMatch_loop pageKey None [] st))"
    by (cases "deleteAllByKeyMatch_loop pageKey None [] st")
       (auto simp: S3Cache_deleteAllByKeyMatch_def c split: sum.splits)
  show ?thesis
    using a b c d e deleteObjects_foldl [of st "chunkArray keysToDelete CHUNK_LIMIT"]
    by (simp add: S3Cache_deleteObjects_def)
qed

section \<open>S3Cache: deletion by path\<close>

lemma deleteAllByKeyMatch_reduce_foldl:
  "foldl (\<lambda>acc k.
            (let key = (case k of None \<Rightarrow> [] | Some key \<Rightarrow> key)
             in if list_ex (\<lambda>ext. endsWith key ext) PAGE_CACHE_EXTENSIONS
                then acc @ [key] else acc))
     acc (map Some ks) =
   acc @ filter (\<lambda>key. list_ex (\<lambda>ext. endsWith key ext) PAGE_CACHE_EXTENSIONS) ks"
  by (induction ks arbitrary: acc) (simp_all add: Let_def)

lemma deleteAllByKeyMatch_reduce_eq:
  "deleteAllByKeyMatch_reduce (map Some ks) =
     filter (\<lambda>key. list_ex (\<lambda>ext. endsWith key ext) PAGE_CACHE_EXTENSIONS) ks"
  unfolding deleteAllByKeyMatch_reduce_def
  using deleteAllByKeyMatch_reduce_foldl [of "[]" ks] by simp

lemma deleteAllByKeyMatch_loop_frame:
  "objects (snd (deleteAllByKeyMatch_loop pageKey tok acc st)) = objects st \<and>
   faults (snd (deleteAllByKeyMatch_loop pageKey tok acc st)) = faults st \<and>
   page_size (snd (deleteAllByKeyMatch_loop pageKey tok acc st)) = page_size st"
proof (induction pageKey tok acc st rule: deleteAllByKeyMatch_loop.induct)
  case (1 pageKey tok acc st)
  let ?req = "\<lparr>ContinuationToken = tok, Prefix = Some (pageKey @ ''/''), Delimiter = Some ''/''\<rparr>"
  show ?case
  proof (cases "faults st (ListObjectsV2 ?req)")
    case (Some e)
    show ?thesis
      by (subst (1 2 3) deleteAllByKeyMatch_loop.simps)
         (simp add: client_listObjectsV2_fault [OF Some] issue_fields)
  next
    case None
    show ?thesis
    proof (cases "page_limit st < length (listing st ?req)")
      case False
      show ?thesis
        by (subst (1 2 3) deleteAllByKeyMatch_loop.simps)
           (simp add: client_listObjectsV2_last [OF None False] issue_fields)
    next
      case True
      note l = client_listObjectsV2_more [OF None True]
      from "1.IH" [OF l [symmetric] refl refl refl]
      show ?thesis
        by (subst (1 2 3) deleteAllByKeyMatch_loop.simps) (simp add: l issue_fields)
    qed
  qed
qed

lemma deleteAllByKeyMatch_loop_keys:
  "(\<forall>ks. fst (deleteAllByKeyMatch_loop pageKey tok acc st) = Inr ks \<longrightarrow>
      (\<exists>new. ks = acc @ new \<and>
         set new \<subseteq> {k \<in> set (listing st \<lparr>ContinuationToken = tok, Prefix = Some (pageKey @ ''/''),
                                             Delimiter = Some ''/''\<rparr>).
                       list_ex (\<lambda>ext. endsWith k ext) PAGE_CACHE_EXTENSIONS})) \<and>
   ((\<forall>r. faults st (ListObjectsV2 r) = None) \<longrightarrow>
      (\<exists>new. fst (deleteAllByKeyMatch_loop pageKey tok acc st) = Inr (acc @ new) \<and>
         set new = {k \<in> set (listing st \<lparr>ContinuationToken = tok, Prefix = Some (pageKey @ ''/''),
                                           Delimiter = Some ''/''\<rparr>).
                     list_ex (\<lambda>ext. endsWith k ext) PAGE_CACHE_EXTENSIONS}))"
proof (induction pageKey tok acc st rule: deleteAllByKeyMatch_loop.induct)
  case (1 pageKey tok acc st)
  let ?req = "\<lparr>ContinuationToken = tok, Prefix = Some (pageKey @ ''/''), Delimiter = Some ''/''\<rparr>"
  let ?L = "listing st ?req"
  let ?ext = "\<lambda>k. list_ex (\<lambda>ext. endsWith k ext) PAGE_CACHE_EXTENSIONS"
  show ?case
  proof (cases "faults st (ListObjectsV2 ?req)")
    case (Some e)
    then have "\<not> (\<forall>r. faults st (ListObjectsV2 r) = None)" by auto
    then show ?thesis
      by (subst (1 2) deleteAllByKeyMatch_loop.simps)
         (simp add: client_listObjectsV2_fault [OF Some])
  next
    case None
    show ?thesis
    proof (cases "page_limit st < length ?L")
      case False
      show ?thesis
        by (subst (1 2) deleteAllByKeyMatch_loop.simps)
           (auto simp: client_listObjectsV2_last [OF None False] deleteAllByKeyMatch_reduce_eq)
    next
      case True
      let ?n = "page_limit st"
      let ?t = "After (?L ! (?n - 1))"
      let ?req' = "\<lparr>ContinuationToken = Some ?t, Prefix = Some (pageKey @ ''/''), Delimiter = Some ''/''\<rparr>"
      let ?st1 = "issue (ListObjectsV2 ?req) st"
      let ?acc' = "acc @ filter ?ext (take ?n ?L)"
      note l = client_listObjectsV2_more [OF None True]
      have unfold: "deleteAllByKeyMatch_loop pageKey tok acc st =
          deleteAllByKeyMatch_loop pageKey (Some ?t) ?acc' ?st1"
        by (subst deleteAllByKeyMatch_loop.simps) (simp add: l deleteAllByKeyMatch_reduce_eq)
      have pages: "set (take ?n ?L) \<union> set (listing st ?req') = set ?L"
        using listing_pages [OF page_limit_pos True, of ] by simp
      note ih = "1.IH" [OF l [symmetric] refl refl refl, unfolded deleteAllByKeyMatch_reduce_eq listing_issue issue_fields]
      have first: "\<exists>new. ks = acc @ new \<and> set new \<subseteq> {k \<in> set ?L. ?ext k}"
        if "fst (deleteAllByKeyMatch_loop pageKey tok acc st) = Inr ks" for ks
      proof -
        from that ih unfold obtain new' where
          n: "ks = ?acc' @ new'" "set new' \<subseteq> {k \<in> set (listing st ?req'). ?ext k}"
          by auto
        have "set (filter ?ext (take ?n ?L) @ new') \<subseteq> {k \<in> set ?L. ?ext k}"
          using n(2) pages by auto
        with n(1) show ?thesis by auto
      qed
      have second: "\<exists>new. fst (deleteAllByKeyMatch_loop pageKey tok acc st) = Inr (acc @ new) \<and>
            set new = {k \<in> set ?L. ?ext k}"
        if nf: "\<forall>r. faults st (ListObjectsV2 r) = None"
      proof -
        from nf ih obtain new' where
          n: "fst (deleteAllByKeyMatch_loop pageKey (Some ?t) ?acc' ?st1) = Inr (?acc' @ new')"
             "set new' = {k \<in> set (listing st ?req'). ?ext k}"
          by auto
        have "set (filter ?ext (take ?n ?L) @ new') = {k \<in> set ?L. ?ext k}"
          using n(2) pages by auto
        with n(1) unfold show ?thesis
          by (intro exI [of _ "filter ?ext (take ?n ?L) @ new'"]) simp
      qed
      from first second show ?thesis by blast
    qed
  qed
qed

text \<open>
  What \<open>deleteAllByKeyMatch\<close> does with a filter that is not empty, in terms of the test
  the code makes (\<open>some_allowKey\<close>, which strips \<open>.json\<close> and \<open>.html\<close> and no other
  extension): it leaves every object untouched whose key fails the test; an object it
  changes is deleted, lies directly under \<open>pageKey/\<close>, ends with one of the recognized
  extensions and passes the test; when no call fails, the deleted objects are exactly
  those.
\<close>

lemma S3Cache_deleteAllByKeyMatch_filter:
  assumes "allowCacheKeys \<noteq> []"
  shows
   "(\<forall>k. \<not> some_allowKey allowCacheKeys k \<longrightarrow>
         map_of (objects (snd (S3Cache_deleteAllByKeyMatch pageKey allowCacheKeys st))) k =
         map_of (objects st) k) \<and>
    (\<forall>k. map_of (objects (snd (S3Cache_deleteAllByKeyMatch pageKey allowCacheKeys st))) k
           \<noteq> map_of (objects st) k \<longrightarrow>
         map_of (objects (snd (S3Cache_deleteAllByKeyMatch pageKey allowCacheKeys st))) k = None \<and>
         visible \<lparr>ContinuationToken = None, Prefix = Some (pageKey @ ''/''), Delimiter = Some ''/''\<rparr> k \<and>
         list_ex (\<lambda>ext. endsWith k ext) PAGE_CACHE_EXTENSIONS \<and>
         some_allowKey allowCacheKeys k) \<and>
    ((\<forall>op. faults st op = None) \<longrightarrow>
       (\<forall>k. map_of (objects (snd (S3Cache_deleteAllByKeyMatch pageKey allowCacheKeys st))) k =
          (if visible \<lparr>ContinuationToken = None, Prefix = Some (pageKey @ ''/''),
                       Delimiter = Some ''/''\<rparr> k \<and>
              list_ex (\<lambda>ext. endsWith k ext) PAGE_CACHE_EXTENSIONS \<and>
              some_allowKey allowCacheKeys k
           then None else map_of (objects st) k)))"
proof -
  let ?req = "\<lparr>ContinuationToken = None, Prefix = Some (pageKey @ ''/''), Delimiter = Some ''/''\<rparr>"
  let ?ext = "\<lambda>k. list_ex (\<lambda>ext. endsWith k ext) PAGE_CACHE_EXTENSIONS"
  let ?st' = "snd (S3Cache_deleteAllByKeyMatch pageKey allowCacheKeys st)"
  obtain r st1 where L: "deleteAllByKeyMatch_loop pageKey None [] st = (r, st1)"
    by (cases "deleteAllByKeyMatch_loop pageKey None [] st")
  have frame: "objects st1 = objects st" "faults st1 = faults st"
    using deleteAllByKeyMatch_loop_frame [of pageKey None "[]" st] L by simp_all
  note keys = deleteAllByKeyMatch_loop_keys [of pageKey None "[]" st, unfolded L, simplified]
  have listed: "k \<in> set (listing st ?req) \<longleftrightarrow> (map_of (objects st) k \<noteq> None \<and> visible ?req k)" for k
    by (auto simp: set_listing map_of_eq_None_iff)
  show ?thesis
  proof (cases r)
    case (Inl e)
    then have same: "objects ?st' = objects st"
      using L frame by (simp add: S3Cache_deleteAllByKeyMatch_def)
    have nf: "\<not> (\<forall>op. faults st op = None)"
      using keys Inl by auto
    have one: "\<forall>k. \<not> some_allowKey allowCacheKeys k \<longrightarrow> map_of (objects ?st') k = map_of (objects st) k"
      by (simp only: same) simp
    have two: "\<forall>k. map_of (objects ?st') k \<noteq> map_of (objects st) k \<longrightarrow>
         map_of (objects ?st') k = None \<and> visible ?req k \<and> ?ext k \<and> some_allowKey allowCacheKeys k"
      by (simp only: same) simp
    from one two nf show ?thesis by blast
  next
    case (Inr ks)
    let ?del = "filter (some_allowKey allowCacheKeys) ks"
    let ?D = "\<lambda>k. list_ex (\<lambda>chunk. faults st (DeleteObjects chunk) = None \<and> k \<in> set chunk)
                 (chunkArray ?del CHUNK_LIMIT)"
    have st': "?st' = snd (S3Cache_deleteObjects ?del st1)"
      using L Inr assms by (simp add: S3Cache_deleteAllByKeyMatch_def)
    have m: "map_of (objects ?st') k = (if ?D k then None else map_of (objects st) k)" for k
      unfolding st' using S3Cache_deleteObjects_objects [of ?del st1 k] frame by simp
    have sub: "set ks \<subseteq> {k \<in> set (listing st ?req). ?ext k}"
      using keys Inr by simp
    have D1: "some_allowKey allowCacheKeys k \<and> visible ?req k \<and> ?ext k \<and> map_of (objects st) k \<noteq> None"
      if "?D k" for k
    proof -
      from that have "list_ex (\<lambda>chunk. k \<in> set chunk) (chunkArray ?del CHUNK_LIMIT)"
        unfolding list_ex_iff by blast
      then have "k \<in> set ?del" by (simp only: in_chunkArray)
      then have "some_allowKey allowCacheKeys k" "k \<in> set ks" by simp_all
      with sub listed [of k] show ?thesis by blast
    qed
    have D2: "?D k \<longleftrightarrow> (some_allowKey allowCacheKeys k \<and> visible ?req k \<and> ?ext k \<and>
                map_of (objects st) k \<noteq> None)"
      if nf: "\<forall>op. faults st op = None" for k
    proof -
      from nf keys Inr have eq: "set ks = {k \<in> set (listing st ?req). ?ext k}" by auto
      from nf have "?D k \<longleftrightarrow> list_ex (\<lambda>chunk. k \<in> set chunk) (chunkArray ?del CHUNK_LIMIT)"
        by simp
      also have "\<dots> \<longleftrightarrow> k \<in> set ?del" by (simp only: in_chunkArray)
      also have "\<dots> \<longleftrightarrow> some_allowKey allowCacheKeys k \<and> k \<in> set ks" by auto
      finally show ?thesis using eq listed [of k] by blast
    qed
    have one: "\<forall>k. \<not> some_allowKey allowCacheKeys k \<longrightarrow> map_of (objects ?st') k = map_of (objects st) k"
    proof (intro allI impI)
      fix k
      assume "\<not> some_allowKey allowCacheKeys k"
      then have "\<not> ?D k" using D1 [of k] by blast
      then show "map_of (objects ?st') k = map_of (objects st) k"
        by (simp only: m if_False)
    qed
    have two: "\<forall>k. map_of (objects ?st') k \<noteq> map_of (objects st) k \<longrightarrow>
         map_of (objects ?st') k = None \<and> visible ?req k \<and> ?ext k \<and> some_allowKey allowCacheKeys k"
    proof (intro allI impI)
      fix k
      assume neq: "map_of (objects ?st') k \<noteq> map_of (objects st) k"
      have d: "?D k"
      proof (rule ccontr)
        assume "\<not> ?D k"
        then have "map_of (objects ?st') k = map_of (objects st) k"
          by (simp only: m if_False)
        with neq show False by simp
      qed
      then have "map_of (objects ?st') k = None"
        by (simp only: m if_True)
      with D1 [OF d]
      show "map_of (objects ?st') k = None \<and> visible ?req k \<and> ?ext k \<and> some_allowKey allowCacheKeys k"
        by blast
    qed
    have three: "(\<forall>op. faults st op = None) \<longrightarrow>
       (\<forall>k. map_of (objects ?st') k =
          (if visible ?req k \<and> ?ext k \<and> some_allowKey allowCacheKeys k
           then None else map_of (objects st) k))"
    proof (intro impI allI)
      fix k
      assume nf: "\<forall>op. faults st op = None"
      show "map_of (objects ?st') k =
          (if visible ?req k \<and> ?ext k \<and> some_allowKey allowCacheKeys k
           then None else map_of (objects st) k)"
      proof (cases "?D k")
        case True
        then have "map_of (objects ?st') k = None" by (simp only: m if_True)
        with D1 [OF True] show ?thesis by simp
      next
        case False
        then have a: "map_of (objects ?st') k = map_of (objects st) k" by (simp only: m if_False)
        from False D2 [OF nf, of k]
        have "\<not> (some_allowKey allowCacheKeys k \<and> visible ?req k \<and> ?ext k \<and> map_of (objects st) k \<noteq> None)"
          by blast
        with a show ?thesis by auto
      qed
    qed
    from one two three show ?thesis by blast
  qed
qed

text \<open>
  The variants \<open>a\<close> and \<open>b\<close> of one page, listed two keys a page, with the filter
  \<open>['a']\<close>: \<open>page/a.json\<close> and \<open>page/a.html\<close> go, \<open>page/b.json\<close> stays.
\<close>

lemma S3Cache_deleteAllByKeyMatch_filter_example:
  "[''a''] \<noteq> [] \<and>
   \<not> some_allowKey [''a''] ''page/b.json'' \<and>
   map_of (objects (snd (S3Cache_deleteAllByKeyMatch ''page'' [''a''] page_variants))) ''page/b.json'' =
     map_of (objects page_variants) ''page/b.json'' \<and>
   map_of (objects (snd (S3Cache_deleteAllByKeyMatch ''page'' [''a''] page_variants))) ''page/a.json'' = None \<and>
   map fst (objects (snd (S3Cache_deleteAllByKeyMatch ''page'' [''a''] page_variants))) =
     [''page/b.json'', ''page/sub/a.json'', ''other/a.json'']"
proof -
  let ?st' = "snd (S3Cache_deleteAllByKeyMatch ''page'' [''a''] page_variants)"
  let ?V = "\<lambda>k. visible \<lparr>ContinuationToken = None, Prefix = Some (''page'' @ ''/''), Delimiter = Some ''/''\<rparr> k \<and>
      list_ex (\<lambda>ext. endsWith k ext) PAGE_CACHE_EXTENSIONS \<and> some_allowKey [''a''] k"
  have ne: "[''a''] \<noteq> []" by simp
  have e: "map fst (objects ?st') = [''page/b.json'', ''page/sub/a.json'', ''other/a.json'']"
    by code_simp
  have n: "\<not> some_allowKey [''a''] ''page/b.json''"
    by code_simp
  have f: "\<forall>op. faults page_variants op = None"
    by (simp add: page_variants_def sample_store_def)
  have v: "?V ''page/a.json''"
    by code_simp
  note t = S3Cache_deleteAllByKeyMatch_filter [OF ne, of "''page''" page_variants]
  from t have "\<forall>k. \<not> some_allowKey [''a''] k \<longrightarrow>
      map_of (objects ?st') k = map_of (objects page_variants) k"
    by (rule conjunct1)
  with n have b: "map_of (objects ?st') ''page/b.json'' = map_of (objects page_variants) ''page/b.json''"
    by blast
  from t f have "\<forall>k. map_of (objects ?st') k = (if ?V k then None else map_of (objects page_variants) k)"
    by blast
  then have "map_of (objects ?st') ''page/a.json'' =
      (if ?V ''page/a.json'' then None else map_of (objects page_variants) ''page/a.json'')"
    by (rule spec)
  with v have a: "map_of (objects ?st') ''page/a.json'' = None"
    by (simp only: if_True simp_thms)
  from ne n b a e show ?thesis by blast
qed

text \<open>
  Claim C5. The variants \<open>b\<close> and \<open>c\<close> of one page, \<open>b\<close> with its \<open>.rsc\<close> object, and the
  filter \<open>['c']\<close>. By the claim only the objects of the variant \<open>c\<close> go: the key
  \<open>page/b.rsc\<close> without its extension is \<open>page/b\<close>, which does not end with \<open>c\<close>. The
  code strips \<open>.json\<close> and \<open>.html\<close> only, although \<open>rsc\<close> is one of the extensions it
  recognizes when it collects the keys: \<open>page/b.rsc\<close> is tested as it is, ends with \<open>c\<close>
  and is deleted with \<open>page/c.json\<close>, and the variant \<open>b\<close> loses an object.
\<close>

theorem C5_rsc_sibling_deleted:
  "map fst (objects rsc_variants) = [''page/b.json'', ''page/b.rsc'', ''page/c.json''] \<and>
   list_ex (\<lambda>ext. endsWith ''page/b.rsc'' ext) PAGE_CACHE_EXTENSIONS \<and>
   \<not> endsWith ''page/b'' ''c'' \<and>
   strip_json_html ''page/b.rsc'' = ''page/b.rsc'' \<and>
   some_allowKey [''c''] ''page/b.rsc'' \<and>
   calls (snd (S3Cache_deleteAllByKeyMatch ''page'' [''c''] rsc_variants)) =
     [ListObjectsV2 \<lparr>ContinuationToken = None, Prefix = Some ''page/'', Delimiter = Some ''/''\<rparr>,
      DeleteObjects [''page/b.rsc'', ''page/c.json'']] \<and>
   map fst (objects (snd (S3Cache_deleteAllByKeyMatch ''page'' [''c''] rsc_variants))) =
     [''page/b.json'']"
  by code_simp

section \<open>S3Cache: invalidation by tag\<close>

text \<open>
  Claim C1. Two variants of a page, both tagged \<open>t\<close>, and the filter \<open>['a']\<close>. The claim
  has \<open>revalidateTag('t', _, ['a'])\<close> delete \<open>page/a.json\<close>, whose key matches the filter,
  and leave \<open>page/b.json\<close>. The reducer returns the accumulator early for a key that
  matches the filter, so the tags of \<open>page/a.json\<close> are never read and it stays, and
  \<open>page/b.json\<close>, which the filter does not name, is deleted.
\<close>

theorem C1_filter_inverted:
  "map (\<lambda>kv. (fst kv, tag_values (TagSet (snd kv)))) (objects two_variants) =
     [(''page/a.json'', [''t'']), (''page/b.json'', [''t''])] \<and>
   some_allowKey [''a''] ''page/a.json'' \<and>
   \<not> some_allowKey [''a''] ''page/b.json'' \<and>
   map fst (objects (snd (S3Cache_revalidateTag ''t'' [''a''] two_variants))) = [''page/a.json''] \<and>
   calls (snd (S3Cache_revalidateTag ''t'' [''a''] two_variants)) =
     [ListObjectsV2 \<lparr>ContinuationToken = None, Prefix = None, Delimiter = None\<rparr>,
      GetObjectTagging ''page/b.json'',
      DeleteObjects [''page/b.json'']]"
  by code_simp

text \<open>
  What \<open>revalidateTag\<close> deletes in general, when no call fails: the objects with a key
  that is not empty, that carry the tag, and whose key the filter does not match (when
  the filter is not empty). Every other object is left as it is.
\<close>

lemma listing_objects: "objects st' = objects st \<Longrightarrow> listing st' req = listing st req"
  by (simp add: listing_def)

lemma client_getObjectTagging_found:
  "faults st (GetObjectTagging key) = None \<Longrightarrow> map_of (objects st) key = Some ob \<Longrightarrow>
   client_getObjectTagging key st = (Inr (TagSet ob), issue (GetObjectTagging key) st)"
  by (simp add: client_getObjectTagging_def)

lemma revalidateTag_reduce_faults:
  "faults (snd (revalidateTag_reduce tag allowCacheKeys contents acc st)) = faults st"
  by (induction tag allowCacheKeys contents acc st rule: revalidateTag_reduce.induct)
     (auto simp: client_getObjectTagging_def issue_def split: option.splits prod.splits sum.splits)

lemma revalidateTag_reduce_collects:
  assumes "\<forall>op. faults st op = None" and "\<forall>k \<in> set ks. map_of (objects st) k \<noteq> None"
  shows "fst (revalidateTag_reduce tag allowCacheKeys (map Some ks) (Inr acc) st) =
     Inr (acc @ filter (\<lambda>k. k \<noteq> [] \<and> \<not> (allowCacheKeys \<noteq> [] \<and> some_allowKey allowCacheKeys k) \<and>
                          (case map_of (objects st) k of
                             None \<Rightarrow> False
                           | Some ob \<Rightarrow> tag \<in> set (tag_values (TagSet ob)))) ks)"
  using assms
proof (induction ks arbitrary: acc st)
  case Nil
  show ?case by simp
next
  case (Cons k ks)
  let ?skip = "k = [] \<or> (allowCacheKeys \<noteq> [] \<and> some_allowKey allowCacheKeys k)"
  show ?case
  proof (cases ?skip)
    case True
    have "fst (revalidateTag_reduce tag allowCacheKeys (map Some (k # ks)) (Inr acc) st) =
        fst (revalidateTag_reduce tag allowCacheKeys (map Some ks) (Inr acc) st)"
      using True by simp
    also have "\<dots> = Inr (acc @ filter (\<lambda>k. k \<noteq> [] \<and> \<not> (allowCacheKeys \<noteq> [] \<and> some_allowKey allowCacheKeys k) \<and>
                          (case map_of (objects st) k of
                             None \<Rightarrow> False
                           | Some ob \<Rightarrow> tag \<in> set (tag_values (TagSet ob)))) ks)"
      using Cons.IH [of st acc] Cons.prems by simp
    finally show ?thesis using True by auto
  next
    case False
    from Cons.prems obtain ob where ob: "map_of (objects st) k = Some ob" by auto
    let ?st' = "issue (GetObjectTagging k) st"
    have g: "client_getObjectTagging k st = (Inr (TagSet ob), ?st')"
      using Cons.prems(1) ob by (simp add: client_getObjectTagging_found)
    have pre: "\<forall>op. faults ?st' op = None" "\<forall>k \<in> set ks. map_of (objects ?st') k \<noteq> None"
      using Cons.prems by (simp_all add: issue_fields)
    note ih = Cons.IH [OF pre, unfolded issue_fields]
    show ?thesis
    proof (cases "tag \<in> set (tag_values (TagSet ob))")
      case True
      have "fst (revalidateTag_reduce tag allowCacheKeys (map Some (k # ks)) (Inr acc) st) =
          fst (revalidateTag_reduce tag allowCacheKeys (map Some ks) (Inr (acc @ [k])) ?st')"
        using False True g by auto
      with ih [of "acc @ [k]"] False True ob show ?thesis by simp
    next
      case notag: False
      have "fst (revalidateTag_reduce tag allowCacheKeys (map Some (k # ks)) (Inr acc) st) =
          fst (revalidateTag_reduce tag allowCacheKeys (map Some ks) (Inr acc) ?st')"
        using False notag g by auto
      with ih [of acc] False notag ob show ?thesis by simp
    qed
  qed
qed

lemma revalidateTag_loop_collects:
  "(\<forall>op. faults st op = None) \<Longrightarrow>
   (\<exists>new. fst (revalidateTag_loop tag allowCacheKeys tok acc st) = Inr (acc @ new) \<and>
      set new = {k \<in> set (listing st \<lparr>ContinuationToken = tok, Prefix = None, Delimiter = None\<rparr>).
                   k \<noteq> [] \<and> \<not> (allowCacheKeys \<noteq> [] \<and> some_allowKey allowCacheKeys k) \<and>
                   (case map_of (objects st) k of
                      None \<Rightarrow> False
                    | Some ob \<Rightarrow> tag \<in> set (tag_values (TagSet ob)))}) \<and>
   objects (snd (revalidateTag_loop tag allowCacheKeys tok acc st)) = objects st \<and>
   faults (snd (revalidateTag_loop tag allowCacheKeys tok acc st)) = faults st"
proof (induction tag allowCacheKeys tok acc st rule: revalidateTag_loop.induct)
  case (1 tag allowCacheKeys tok acc st)
  let ?req = "\<lparr>ContinuationToken = tok, Prefix = None, Delimiter = None\<rparr>"
  let ?L = "listing st ?req"
  let ?st1 = "issue (ListObjectsV2 ?req) st"
  let ?sel = "\<lambda>k. k \<noteq> [] \<and> \<not> (allowCacheKeys \<noteq> [] \<and> some_allowKey allowCacheKeys k) \<and>
                   (case map_of (objects st) k of
                      None \<Rightarrow> False
                    | Some ob \<Rightarrow> tag \<in> set (tag_values (TagSet ob)))"
  note nf = "1.prems"
  have None: "faults st (ListObjectsV2 ?req) = None" using nf by simp
  have nf1: "\<forall>op. faults ?st1 op = None" using nf by (simp add: issue_fields)
  have ex: "\<forall>k \<in> set xs. map_of (objects ?st1) k \<noteq> None" if "set xs \<subseteq> set ?L" for xs
    using that by (auto simp: set_listing issue_fields map_of_eq_None_iff)
  have red: "fst (revalidateTag_reduce tag allowCacheKeys (map Some xs) (Inr []) ?st1) =
      Inr (filter ?sel xs)" if "set xs \<subseteq> set ?L" for xs
    using revalidateTag_reduce_collects [OF nf1 ex [OF that], of tag allowCacheKeys "[]"]
    by (simp add: issue_fields)
  have frame: "objects (snd (revalidateTag_reduce tag allowCacheKeys c (Inr []) ?st1)) = objects st"
      "faults (snd (revalidateTag_reduce tag allowCacheKeys c (Inr []) ?st1)) = faults st" for c
    by (simp_all add: revalidateTag_reduce_objects revalidateTag_reduce_faults issue_fields)
  show ?case
  proof (cases "page_limit st < length ?L")
    case False
    obtain r st2 where p: "revalidateTag_reduce tag allowCacheKeys (map Some ?L) (Inr []) ?st1 = (r, st2)"
      by (cases "revalidateTag_reduce tag allowCacheKeys (map Some ?L) (Inr []) ?st1")
    have r: "r = Inr (filter ?sel ?L)" using red [of ?L] p by simp
    have f2: "objects st2 = objects st" "faults st2 = faults st"
      using frame [of "map Some ?L"] p by simp_all
    show ?thesis
      by (subst (1 2 3) revalidateTag_loop.simps)
         (simp add: client_listObjectsV2_last [OF None False] p r f2)
  next
    case True
    let ?n = "page_limit st"
    let ?page = "take ?n ?L"
    let ?t = "After (?L ! (?n - 1))"
    let ?req' = "\<lparr>ContinuationToken = Some ?t, Prefix = None, Delimiter = None\<rparr>"
    note l = client_listObjectsV2_more [OF None True]
    obtain r st2 where p: "revalidateTag_reduce tag allowCacheKeys (map Some ?page) (Inr []) ?st1 = (r, st2)"
      by (cases "revalidateTag_reduce tag allowCacheKeys (map Some ?page) (Inr []) ?st1")
    have r: "r = Inr (filter ?sel ?page)"
      using red [of ?page] p set_take_subset [of ?n ?L] by simp
    have f2: "objects st2 = objects st" "faults st2 = faults st"
      using frame [of "map Some ?page"] p by simp_all
    have nf2: "\<forall>op. faults st2 op = None" using nf f2 by simp
    have unfold: "revalidateTag_loop tag allowCacheKeys tok acc st =
        revalidateTag_loop tag allowCacheKeys (Some ?t) (acc @ filter ?sel ?page) st2"
      by (subst revalidateTag_loop.simps) (simp add: l p r)
    have pages: "set ?page \<union> set (listing st ?req') = set ?L"
      using listing_pages [OF page_limit_pos True] by simp
    note ih = "1.IH" [OF l [symmetric] refl refl p [symmetric] r refl nf2,
        unfolded listing_objects [OF f2(1)] f2]
    from ih obtain new' where
      n: "fst (revalidateTag_loop tag allowCacheKeys (Some ?t) (acc @ filter ?sel ?page) st2) =
            Inr ((acc @ filter ?sel ?page) @ new')"
         "set new' = {k \<in> set (listing st ?req'). ?sel k}"
      by blast
    have "set (filter ?sel ?page @ new') = {k \<in> set ?L. ?sel k}"
      using n(2) pages by auto
    with n(1) unfold ih show ?thesis
      by (intro conjI impI exI [of _ "filter ?sel ?page @ new'"]) simp_all
  qed
qed

lemma S3Cache_revalidateTag_deletes:
  assumes nf: "\<forall>op. faults st op = None"
  shows "map_of (objects (snd (S3Cache_revalidateTag tag allowCacheKeys st))) k =
     (if k \<noteq> [] \<and> \<not> (allowCacheKeys \<noteq> [] \<and> some_allowKey allowCacheKeys k) \<and>
         (case map_of (objects st) k of
            None \<Rightarrow> False
          | Some ob \<Rightarrow> tag \<in> set (tag_values (TagSet ob)))
      then None else map_of (objects st) k)"
proof -
  let ?req = "\<lparr>ContinuationToken = None, Prefix = None, Delimiter = None\<rparr>"
  let ?sel = "\<lambda>k. k \<noteq> [] \<and> \<not> (allowCacheKeys \<noteq> [] \<and> some_allowKey allowCacheKeys k) \<and>
                   (case map_of (objects st) k of
                      None \<Rightarrow> False
                    | Some ob \<Rightarrow> tag \<in> set (tag_values (TagSet ob)))"
  obtain r st1 where L: "revalidateTag_loop tag allowCacheKeys None [] st = (r, st1)"
    by (cases "revalidateTag_loop tag allowCacheKeys None [] st")
  from revalidateTag_loop_collects [of st tag allowCacheKeys None "[]"] nf L
  obtain ks where ks: "r = Inr ks" "set ks = {k \<in> set (listing st ?req). ?sel k}"
    and f1: "objects st1 = objects st" "faults st1 = faults st"
    by auto
  have listed: "k \<in> set (listing st ?req) \<longleftrightarrow> map_of (objects st) k \<noteq> None"
    by (auto simp: set_listing map_of_eq_None_iff visible_def startsWith_def)
  have st': "snd (S3Cache_revalidateTag tag allowCacheKeys st) = snd (S3Cache_deleteObjects ks st1)"
    using L ks(1) by (simp add: S3Cache_revalidateTag_def)
  have D: "list_ex (\<lambda>chunk. faults st1 (DeleteObjects chunk) = None \<and> k \<in> set chunk)
            (chunkArray ks CHUNK_LIMIT) \<longleftrightarrow> k \<in> set ks"
    using nf f1 in_chunkArray [of k ks] by simp
  have "map_of (objects (snd (S3Cache_deleteObjects ks st1))) k =
      (if k \<in> set ks then None else map_of (objects st) k)"
    using S3Cache_deleteObjects_objects [of ks st1 k] D f1 by simp
  moreover have "k \<in> set ks \<longleftrightarrow> ?sel k"
    using ks(2) listed by (auto split: option.splits)
  ultimately show ?thesis
    by (simp only: st')
qed

section \<open>JSON: what is written is read back\<close>

lemma hex_value_digit: "n < 16 \<Longrightarrow> hex_value (hex_digit n) = Some n"
  by (auto simp: hex_value_def hex_digit_def Let_def)

lemma hex4_low:
  assumes "n < 32"
  shows "hex4 CHR ''0'' CHR ''0'' (hex_digit (n div 16)) (hex_digit (n mod 16)) = Some (char_of n)"
proof -
  have a: "hex_value (hex_digit (n div 16)) = Some (n div 16)"
    using assms by (intro hex_value_digit) simp
  have b: "hex_value (hex_digit (n mod 16)) = Some (n mod 16)"
    by (intro hex_value_digit) simp
  have z: "hex_value CHR ''0'' = Some 0"
    by (simp add: hex_value_def)
  show ?thesis
    by (simp add: hex4_def a b z)
qed

lemma parse_chars_backslash:
  "unescape e = Some ch \<Longrightarrow> e \<noteq> CHR ''u'' \<Longrightarrow>
   parse_chars (CHR 0x5C # e # t) = map_option (\<lambda>(s, r). (ch # s, r)) (parse_chars t)"
  by simp

lemma parse_chars_plain:
  "c \<noteq> CHR 0x22 \<Longrightarrow> c \<noteq> CHR 0x5C \<Longrightarrow> \<not> (of_char c :: nat) < 32 \<Longrightarrow>
   parse_chars (c # t) = map_option (\<lambda>(s, r). (c # s, r)) (parse_chars t)"
  by simp

lemma parse_chars_unicode:
  "hex4 a b c d = Some ch \<Longrightarrow>
   parse_chars (CHR 0x5C # CHR ''u'' # a # b # c # d # t) =
     map_option (\<lambda>(s, r). (ch # s, r)) (parse_chars t)"
  by simp

lemma parse_chars_escape_char:
  "parse_chars (escape_char c @ t) = map_option (\<lambda>(s, r). (c # s, r)) (parse_chars t)"
proof -
  consider "c = CHR 0x22" | "c = CHR 0x5C" | "c = CHR 0x08" | "c = CHR 0x0C" | "c = CHR 0x0A"
    | "c = CHR 0x0D" | "c = CHR 0x09"
    | "c \<notin> {CHR 0x22, CHR 0x5C, CHR 0x08, CHR 0x0C, CHR 0x0A, CHR 0x0D, CHR 0x09}"
      "(of_char c :: nat) < 32"
    | "c \<notin> {CHR 0x22, CHR 0x5C, CHR 0x08, CHR 0x0C, CHR 0x0A, CHR 0x0D, CHR 0x09}"
      "\<not> (of_char c :: nat) < 32"
    by blast
  then show ?thesis
  proof cases
    case 1
    have "escape_char c = [CHR 0x5C, CHR 0x22]" by (simp add: escape_char_def 1)
    then show ?thesis by (simp add: unescape_def 1)
  next
    case 2
    have "escape_char c = [CHR 0x5C, CHR 0x5C]" by (simp add: escape_char_def 2)
    then show ?thesis by (simp add: unescape_def 2)
  next
    case 3
    have "escape_char c = [CHR 0x5C, CHR ''b'']" by (simp add: escape_char_def 3)
    then show ?thesis by (simp add: unescape_def 3)
  next
    case 4
    have "escape_char c = [CHR 0x5C, CHR ''f'']" by (simp add: escape_char_def 4)
    then show ?thesis by (simp add: unescape_def 4)
  next
    case 5
    have "escape_char c = [CHR 0x5C, CHR ''n'']" by (simp add: escape_char_def 5)
    then show ?thesis by (simp add: unescape_def 5)
  next
    case 6
    have "escape_char c = [CHR 0x5C, CHR ''r'']" by (simp add: escape_char_def 6)
    then show ?thesis by (simp add: unescape_def 6)
  next
    case 7
    have "escape_char c = [CHR 0x5C, CHR ''t'']" by (simp add: escape_char_def 7)
    then show ?thesis by (simp add: unescape_def 7)
  next
    case 8
    then have e: "escape_char c = [CHR 0x5C, CHR ''u'', CHR ''0'', CHR ''0'',
            hex_digit (of_char c div 16), hex_digit (of_char c mod 16)]"
      by (simp add: escape_char_def)
    have h: "hex4 CHR ''0'' CHR ''0'' (hex_digit (of_char c div 16)) (hex_digit (of_char c mod 16)) = Some c"
      using hex4_low [of "of_char c"] 8 by simp
    show ?thesis
      unfolding e using parse_chars_unicode [OF h] by simp
  next
    case 9
    then have e: "escape_char c = [c]"
      by (simp add: escape_char_def)
    show ?thesis
      unfolding e using 9 parse_chars_plain [of c t] by simp
  qed
qed

lemma parse_string_print: "parse_string (print_string s @ rest) = Some (s, rest)"
proof -
  have "parse_chars (concat (map escape_char s) @ CHR 0x22 # rest) = Some (s, rest)"
    by (induction s) (simp_all add: parse_chars_escape_char)
  then show ?thesis
    by (simp add: parse_string_def print_string_def)
qed

lemma expect_append: "expect l (l @ r) = Some r"
  by (induction l) simp_all

lemma expect_differs: "c \<noteq> d \<Longrightarrow> expect (c # cs) (d # ds) = None"
  by simp

lemma digit_char_value: "d < 10 \<Longrightarrow> of_char (digit_char d) = 48 + d"
  by (simp add: digit_char_def)

lemma is_digit_digit_char: "d < 10 \<Longrightarrow> is_digit (digit_char d)"
  by (simp add: is_digit_def digit_char_value)

lemma show_nat_digits: "list_all is_digit (show_nat n) \<and> show_nat n \<noteq> []"
proof (induction n rule: show_nat.induct)
  case (1 n)
  have d: "is_digit (digit_char (n mod 10))"
    by (rule is_digit_digit_char) simp
  show ?case
  proof (cases "10 \<le> n")
    case True
    with 1 d show ?thesis
      by (subst (1 2) show_nat.simps) (simp add: Let_def)
  next
    case False
    with d show ?thesis
      by (subst (1 2) show_nat.simps) (simp add: Let_def)
  qed
qed

lemma digits_value_snoc:
  "digits_value (ds @ [d]) = 10 * digits_value ds + (of_char d - 48)"
  by (simp add: digits_value_def)

lemma digits_value_show_nat: "digits_value (show_nat n) = n"
proof (induction n rule: show_nat.induct)
  case (1 n)
  have v: "(of_char (digit_char (n mod 10)) :: nat) - 48 = n mod 10"
    by (simp add: digit_char_value)
  show ?case
  proof (cases "10 \<le> n")
    case True
    with 1 have "digits_value (show_nat (n div 10)) = n div 10" by simp
    with True v show ?thesis
      by (subst show_nat.simps) (simp add: Let_def digits_value_snoc)
  next
    case False
    with v show ?thesis
      by (subst show_nat.simps) (simp add: Let_def digits_value_def)
  qed
qed

lemma parse_nat_show:
  "\<not> is_digit c \<Longrightarrow> parse_nat (show_nat n @ c # r) = Some (n, c # r)"
proof -
  assume c: "\<not> is_digit c"
  have all: "\<forall>x \<in> set (show_nat n). is_digit x"
    using show_nat_digits [of n] by (simp add: list_all_iff)
  have t: "takeWhile is_digit (show_nat n @ c # r) = show_nat n"
    using all c by (simp add: takeWhile_append2)
  have d: "dropWhile is_digit (show_nat n @ c # r) = c # r"
    using all c by (simp add: dropWhile_append2)
  show ?thesis
    using show_nat_digits [of n] by (simp add: parse_nat_def t d digits_value_show_nat)
qed

lemma minus_not_digit: "\<not> is_digit CHR ''-''"
  by (simp add: is_digit_def)

lemma parse_int_show:
  assumes "\<not> is_digit c"
  shows "parse_int (show_int i @ c # r) = Some (i, c # r)"
proof (cases "0 \<le> i")
  case True
  obtain d ds where s: "show_nat (nat i) = d # ds"
    using show_nat_digits [of "nat i"] by (cases "show_nat (nat i)") auto
  have "is_digit d" using show_nat_digits [of "nat i"] s by simp
  then have nm: "d \<noteq> CHR ''-''" using minus_not_digit by auto
  have "parse_nat (d # ds @ c # r) = Some (nat i, c # r)"
    using parse_nat_show [OF assms, of "nat i" r] s by simp
  with True nm s show ?thesis
    by (simp add: parse_int_def show_int_def)
next
  case False
  have "parse_nat (show_nat (nat (- i)) @ c # r) = Some (nat (- i), c # r)"
    by (rule parse_nat_show [OF assms])
  with False show ?thesis
    by (simp add: parse_int_def show_int_def)
qed

lemma length_print_strings_tail: "length xs < length (print_strings_tail xs)"
  by (induction xs) simp_all

lemma parse_strings_tail_print:
  "length xs < n \<Longrightarrow> parse_strings_tail n (print_strings_tail xs @ rest) = Some (xs, rest)"
proof (induction xs arbitrary: n)
  case Nil
  then obtain m where "n = Suc m" by (cases n) auto
  then show ?case by simp
next
  case (Cons x xs)
  then obtain m where n: "n = Suc m" "length xs < m" by (cases n) auto
  show ?case
    using Cons.IH [OF n(2)] by (simp add: n(1) parse_string_print)
qed

lemma print_string_quote: "\<exists>t. print_string s = CHR 0x22 # t"
  by (simp add: print_string_def)

lemma parse_strings_print: "parse_strings (print_strings xs @ rest) = Some (xs, rest)"
proof (cases xs)
  case Nil
  then show ?thesis by (simp add: parse_strings_def)
next
  case (Cons x xs')
  obtain t where q: "print_string x = CHR 0x22 # t"
    using print_string_quote by blast
  have e1: "expect ''[]'' (print_strings (x # xs') @ rest) = None"
    using q by simp
  have e2: "expect ''['' (print_strings (x # xs') @ rest) =
      Some (print_string x @ print_strings_tail xs' @ rest)"
    by simp
  have p: "parse_string (print_string x @ print_strings_tail xs' @ rest) =
      Some (x, print_strings_tail xs' @ rest)"
    by (rule parse_string_print)
  have t: "parse_strings_tail (length (print_strings_tail xs' @ rest)) (print_strings_tail xs' @ rest)
      = Some (xs', rest)"
    by (rule parse_strings_tail_print) (use length_print_strings_tail [of xs'] in simp)
  show ?thesis
    unfolding Cons
    by (simp only: parse_strings_def e1 e2 p t option.case prod.case option.map)
qed

lemma parse_header_value_print:
  "parse_header_value (print_header_value h @ rest) = Some (h, rest)"
proof (cases h)
  case (HString s)
  obtain t where q: "print_string s = CHR 0x22 # t"
    using print_string_quote by blast
  have "parse_header_value (print_string s @ rest) =
      map_option (\<lambda>(x, r). (HString x, r)) (parse_string (print_string s @ rest))"
    by (simp add: parse_header_value_def q)
  then show ?thesis
    by (simp add: HString print_header_value_def parse_string_print)
next
  case (HArray xs)
  have "\<exists>t. print_strings xs = CHR ''['' # t"
    by (cases xs) simp_all
  then obtain t where q: "print_strings xs = CHR ''['' # t" by blast
  have "parse_header_value (print_strings xs @ rest) =
      map_option (\<lambda>(ys, r). (HArray ys, r)) (parse_strings (print_strings xs @ rest))"
    by (simp add: parse_header_value_def q)
  then show ?thesis
    by (simp add: HArray print_header_value_def parse_strings_print)
qed

lemma parse_member_print: "parse_member (print_member m @ rest) = Some (m, rest)"
proof -
  have a: "parse_string (print_string (fst m) @ '':'' @ print_header_value (snd m) @ rest) =
      Some (fst m, '':'' @ print_header_value (snd m) @ rest)"
    by (rule parse_string_print)
  have b: "expect '':'' ('':'' @ print_header_value (snd m) @ rest) =
      Some (print_header_value (snd m) @ rest)"
    by (rule expect_append)
  show ?thesis
    by (simp only: parse_member_def print_member_def append_assoc a b option.case prod.case
          parse_header_value_print option.map prod.collapse)
qed

lemma length_print_members_tail: "length ms < length (print_members_tail ms)"
  by (induction ms) simp_all

lemma parse_members_tail_print:
  "length ms < n \<Longrightarrow> parse_members_tail n (print_members_tail ms @ rest) = Some (ms, rest)"
proof (induction ms arbitrary: n)
  case Nil
  then obtain k where "n = Suc k" by (cases n) auto
  then show ?case by simp
next
  case (Cons m ms)
  then obtain k where n: "n = Suc k" "length ms < k" by (cases n) auto
  show ?case
    using Cons.IH [OF n(2)] by (simp add: n(1) parse_member_print)
qed

lemma print_member_quote: "\<exists>t. print_member m = CHR 0x22 # t"
  by (simp add: print_member_def print_string_def)

lemma parse_headers_print: "parse_headers (print_headers ms @ rest) = Some (ms, rest)"
proof (cases ms)
  case Nil
  then show ?thesis by (simp add: parse_headers_def)
next
  case (Cons m ms')
  obtain t where q: "print_member m = CHR 0x22 # t"
    using print_member_quote by blast
  have e1: "expect ''{}'' (print_headers (m # ms') @ rest) = None"
    using q by simp
  have e2: "expect ''{'' (print_headers (m # ms') @ rest) =
      Some (print_member m @ print_members_tail ms' @ rest)"
    by simp
  have p: "parse_member (print_member m @ print_members_tail ms' @ rest) =
      Some (m, print_members_tail ms' @ rest)"
    by (rule parse_member_print)
  have t: "parse_members_tail (length (print_members_tail ms' @ rest)) (print_members_tail ms' @ rest)
      = Some (ms', rest)"
    by (rule parse_members_tail_print) (use length_print_members_tail [of ms'] in simp)
  show ?thesis
    unfolding Cons
    by (simp only: parse_headers_def e1 e2 p t option.case prod.case option.map)
qed

lemma optional_present:
  "p (t @ rest) = Some (x, rest) \<Longrightarrow>
   optional n p ('','' @ field n @ t @ rest) = Some (Some x, rest)"
  using expect_append [of "'','' @ field n" "t @ rest"] by (simp add: optional_def)

lemma optional_absent: "optional n p (CHR ''}'' # rest) = Some (None, CHR ''}'' # rest)"
  by (simp add: optional_def)

lemma not_digit_separators: "\<not> is_digit CHR '',''" "\<not> is_digit CHR ''}''"
  by (simp_all add: is_digit_def)

lemma parse_value_print: "parse_value (print_value v @ rest) = Some (v, rest)"
proof -
  let ?H = "case headers v of None \<Rightarrow> [] | Some hs \<Rightarrow> '','' @ field ''headers'' @ print_headers hs"
  let ?r5 = "?H @ ''}'' @ rest"
  let ?r4 = "print_string (pageData v) @ ?r5"
  let ?r3 = "'','' @ field ''pageData'' @ ?r4"
  let ?r2 = "print_string (html v) @ ?r3"
  let ?r1 = "'','' @ field ''html'' @ ?r2"
  let ?r0 = "print_string (kind v) @ ?r1"
  have t: "print_value v @ rest = (''{'' @ field ''kind'') @ ?r0"
    by (simp add: print_value_def)
  have e0: "expect (''{'' @ field ''kind'') ((''{'' @ field ''kind'') @ ?r0) = Some ?r0"
    by (rule expect_append)
  have p0: "parse_string ?r0 = Some (kind v, ?r1)" by (rule parse_string_print)
  have e1: "expect ('','' @ field ''html'') ?r1 = Some ?r2"
    using expect_append [of "'','' @ field ''html''" ?r2] by simp
  have p1: "parse_string ?r2 = Some (html v, ?r3)" by (rule parse_string_print)
  have e2: "expect ('','' @ field ''pageData'') ?r3 = Some ?r4"
    using expect_append [of "'','' @ field ''pageData''" ?r4] by simp
  have p2: "parse_string ?r4 = Some (pageData v, ?r5)" by (rule parse_string_print)
  have o: "optional ''headers'' parse_headers ?r5 = Some (headers v, ''}'' @ rest)"
  proof (cases "headers v")
    case None
    then show ?thesis using optional_absent [of "''headers''" parse_headers rest] by simp
  next
    case (Some hs)
    have "optional ''headers'' parse_headers ('','' @ field ''headers'' @ print_headers hs @ ''}'' @ rest)
        = Some (Some hs, ''}'' @ rest)"
      by (rule optional_present) (rule parse_headers_print)
    with Some show ?thesis by simp
  qed
  have e3: "expect ''}'' (''}'' @ rest) = Some rest" by (rule expect_append)
  show ?thesis
    unfolding t
    by (simp only: parse_value_def e0 p0 e1 p1 e2 p2 o e3 option.case prod.case) simp
qed

lemma print_value_brace: "\<exists>t. print_value v = CHR ''{'' # t"
  by (simp add: print_value_def)

lemma parse_entry_value_print:
  "parse_entry_value ((case v of None \<Rightarrow> ''null'' | Some x \<Rightarrow> print_value x) @ rest) = Some (v, rest)"
proof (cases v)
  case None
  then show ?thesis
    using expect_append [of "''null''" rest] by (simp add: parse_entry_value_def)
next
  case (Some x)
  obtain t where q: "print_value x = CHR ''{'' # t"
    using print_value_brace by blast
  have "expect ''null'' (print_value x @ rest) = None"
    by (simp add: q)
  then show ?thesis
    by (simp add: Some parse_entry_value_def parse_value_print)
qed

lemma parse_entry_print: "parse_entry (print_entry e @ rest) = Some (e, rest)"
proof -
  let ?V = "case entry_value e of None \<Rightarrow> ''null'' | Some v \<Rightarrow> print_value v"
  let ?T = "case tags e of None \<Rightarrow> [] | Some ts \<Rightarrow> '','' @ field ''tags'' @ print_strings ts"
  let ?R = "case revalidate e of None \<Rightarrow> [] | Some r \<Rightarrow> '','' @ field ''revalidate'' @ show_int r"
  let ?r5 = "''}'' @ rest"
  let ?r4 = "?R @ ?r5"
  let ?r3 = "?T @ ?r4"
  let ?r2 = "show_int (lastModified e) @ ?r3"
  let ?r1 = "'','' @ field ''lastModified'' @ ?r2"
  let ?r0 = "?V @ ?r1"
  have t: "print_entry e @ rest = (''{'' @ field ''value'') @ ?r0"
    by (simp add: print_entry_def)
  have e0: "expect (''{'' @ field ''value'') ((''{'' @ field ''value'') @ ?r0) = Some ?r0"
    by (rule expect_append)
  have v: "parse_entry_value ?r0 = Some (entry_value e, ?r1)"
    by (rule parse_entry_value_print)
  have e1: "expect ('','' @ field ''lastModified'') ?r1 = Some ?r2"
    using expect_append [of "'','' @ field ''lastModified''" ?r2] by simp
  have r4: "\<exists>c r. ?r4 = c # r \<and> \<not> is_digit c \<and> (c = CHR ''}'' \<or> (\<exists>t. c # r = '','' @ field ''revalidate'' @ t))"
    by (cases "revalidate e") (simp_all add: not_digit_separators)
  have r3: "\<exists>c r. ?r3 = c # r \<and> \<not> is_digit c"
    using r4 by (cases "tags e") (auto simp: not_digit_separators)
  then obtain c r where cr: "?r3 = c # r" "\<not> is_digit c" by blast
  have lm: "parse_int ?r2 = Some (lastModified e, ?r3)"
    unfolding cr(1) by (rule parse_int_show [OF cr(2)])
  have ot: "optional ''tags'' parse_strings ?r3 = Some (tags e, ?r4)"
  proof (cases "tags e")
    case (Some ts)
    have "optional ''tags'' parse_strings ('','' @ field ''tags'' @ print_strings ts @ ?r4) = Some (Some ts, ?r4)"
      by (rule optional_present) (rule parse_strings_print)
    with Some show ?thesis by simp
  next
    case None
    from r4 obtain c r where c: "?r4 = c # r"
      "c = CHR ''}'' \<or> (\<exists>t. c # r = '','' @ field ''revalidate'' @ t)" by blast
    have "expect ('','' @ field ''tags'') (c # r) = None"
      using c(2) by (auto simp: field_def)
    then have "optional ''tags'' parse_strings (c # r) = Some (None, c # r)"
      by (simp add: optional_def)
    with None c(1) show ?thesis by simp
  qed
  have orv: "optional ''revalidate'' parse_int ?r4 = Some (revalidate e, ?r5)"
  proof (cases "revalidate e")
    case None
    then show ?thesis using optional_absent [of "''revalidate''" parse_int rest] by simp
  next
    case (Some rv)
    have "parse_int (show_int rv @ CHR ''}'' # rest) = Some (rv, CHR ''}'' # rest)"
      by (rule parse_int_show) (rule not_digit_separators)
    then have "optional ''revalidate'' parse_int ('','' @ field ''revalidate'' @ show_int rv @ ?r5)
        = Some (Some rv, ?r5)"
      by (intro optional_present) simp
    with Some show ?thesis by simp
  qed
  have e3: "expect ''}'' ?r5 = Some rest" by (rule expect_append)
  show ?thesis
    unfolding t
    by (simp only: parse_entry_def e0 v e1 lm ot orv e3 option.case prod.case) simp
qed

text \<open>Every entry is read back from its text as it was written.\<close>

lemma JSON_roundtrip: "JSON_parse JSON (JSON_stringify JSON e) = Inr e"
  using parse_entry_print [of e "[]"] by (simp add: JSON_def)

section \<open>S3Cache: set and get\<close>

lemma client_putObject_nofault:
  "faults st (PutObject input) = None \<Longrightarrow>
   client_putObject input st =
     (Inr (), issue (PutObject input)
                (st\<lparr>objects := AList.update (put_Key input) (stored_object input) (objects st)\<rparr>))"
  by (simp add: client_putObject_def)

text \<open>
  \<open>get\<close> after \<open>set\<close>, for any pair of JSON functions: for a \<open>PAGE\<close> entry and a context
  with \<open>isAppRouter\<close>, on a store whose calls do not fail, \<open>set\<close> resolves and a \<open>get\<close> of
  the same keys right after it returns what \<open>JSON.parse\<close> makes of the \<open>JSON.stringify\<close>
  of the written entry. The \<open>.html\<close> and \<open>.rsc\<close> objects hold the \<open>html\<close> and the
  \<open>pageData\<close> of the entry as they were given.
\<close>

lemma S3Cache_set_get_codec:
  assumes "entry_value data = Some v" and "kind v = ''PAGE''" and "isAppRouter ctx"
    and "\<forall>op. faults st op = None"
  shows "fst (S3Cache_set J pageKey cacheKey data ctx st) = Inr () \<and>
         fst (S3Cache_get J pageKey cacheKey (snd (S3Cache_set J pageKey cacheKey data ctx st))) =
           map_sum id Some (JSON_parse J (JSON_stringify J data)) \<and>
         (JSON_parse J (JSON_stringify J data) = Inr data \<longrightarrow>
            fst (S3Cache_get J pageKey cacheKey (snd (S3Cache_set J pageKey cacheKey data ctx st))) =
              Inr (Some data)) \<and>
         map_option Body (map_of (objects (snd (S3Cache_set J pageKey cacheKey data ctx st)))
                                 (pageKey @ ''/'' @ cacheKey @ ''.html'')) = Some (Some (html v)) \<and>
         map_option Body (map_of (objects (snd (S3Cache_set J pageKey cacheKey data ctx st)))
                                 (pageKey @ ''/'' @ cacheKey @ ''.rsc'')) = Some (Some (pageData v))"
proof -
  let ?K = "pageKey @ ''/'' @ cacheKey"
  let ?cc = "case revalidate data of None \<Rightarrow> None
             | Some r \<Rightarrow> if r \<noteq> 0 then Some (''max-age='' @ show_int r) else None"
  let ?tg = "if buildTagKeys (map_option TagsString (header_tags v)) \<noteq> []
             then Some (buildTagKeys (map_option TagsString (header_tags v))) else None"
  let ?h = "\<lparr>put_Key = ?K @ ''.'' @ ''html'', put_Body = html v, put_ContentType = Some ''text/html'',
             put_CacheControl = ?cc, put_Tagging = ?tg\<rparr>"
  let ?r = "\<lparr>put_Key = ?K @ ''.'' @ ''rsc'', put_Body = pageData v,
             put_ContentType = Some ''text/x-component'',
             put_CacheControl = ?cc, put_Tagging = ?tg\<rparr>"
  let ?j = "\<lparr>put_Key = ?K @ ''.'' @ ''json'', put_Body = JSON_stringify J data,
             put_ContentType = Some ''application/json'',
             put_CacheControl = ?cc, put_Tagging = ?tg\<rparr>"
  have s: "S3Cache_set J pageKey cacheKey data ctx st = put_all [?h, ?r, ?j] st"
    using assms(1-3) by (simp add: S3Cache_set_def Let_def)
  have nf: "faults s' op = None" if "faults s' = faults st" for s' op
    using that assms(4) by simp
  define st1 where "st1 = issue (PutObject ?h)
      (st\<lparr>objects := AList.update (put_Key ?h) (stored_object ?h) (objects st)\<rparr>)"
  define st2 where "st2 = issue (PutObject ?r)
      (st1\<lparr>objects := AList.update (put_Key ?r) (stored_object ?r) (objects st1)\<rparr>)"
  define st3 where "st3 = issue (PutObject ?j)
      (st2\<lparr>objects := AList.update (put_Key ?j) (stored_object ?j) (objects st2)\<rparr>)"
  have f1: "faults st1 = faults st" by (simp add: st1_def issue_def)
  have f2: "faults st2 = faults st" by (simp add: st2_def issue_def f1)
  have f3: "faults st3 = faults st" by (simp add: st3_def issue_def f2)
  have p1: "client_putObject ?h st = (Inr (), st1)"
    unfolding st1_def by (rule client_putObject_nofault) (rule nf [OF refl])
  have p2: "client_putObject ?r st1 = (Inr (), st2)"
    unfolding st2_def by (rule client_putObject_nofault) (rule nf [OF f1])
  have p3: "client_putObject ?j st2 = (Inr (), st3)"
    unfolding st3_def by (rule client_putObject_nofault) (rule nf [OF f2])
  have res: "S3Cache_set J pageKey cacheKey data ctx st = (Inr (), st3)"
    unfolding s by (simp only: put_all.simps p1 p2 p3 prod.case sum.case)
  have o3: "map_of (objects st3) =
      (map_of (objects st))(?K @ ''.html'' \<mapsto> stored_object ?h, ?K @ ''.rsc'' \<mapsto> stored_object ?r,
                            ?K @ ''.json'' \<mapsto> stored_object ?j)"
    by (simp add: st3_def st2_def st1_def issue_def update_conv')
  have g: "client_getObject (?K @ ''.json'') st3 = (Inr (stored_object ?j), issue (GetObject (?K @ ''.json'')) st3)"
    using nf [OF f3] by (simp add: client_getObject_def o3)
  have get: "fst (S3Cache_get J pageKey cacheKey st3) =
      map_sum id Some (JSON_parse J (JSON_stringify J data))"
    using g by (simp add: S3Cache_get_def stored_object_def split: sum.splits)
  have b1: "map_option Body (map_of (objects st3) (?K @ ''.html'')) = Some (Some (html v))"
    by (simp add: o3 stored_object_def)
  have b2: "map_option Body (map_of (objects st3) (?K @ ''.rsc'')) = Some (Some (pageData v))"
    by (simp add: o3 stored_object_def)
  show ?thesis
    using get b1 b2 by (simp add: res)
qed

text \<open>
  Claim C6. For every \<open>PAGE\<close> entry and every context with \<open>isAppRouter\<close>, on a store
  whose calls do not fail, \<open>set\<close> resolves and a \<open>get\<close> of the same keys right after it
  returns the written entry: its \<open>kind\<close>, its \<open>html\<close> and its \<open>pageData\<close> are those that
  were written, character by character. The \<open>.json\<close> object holds the JSON text of the
  entry, the \<open>.html\<close> and \<open>.rsc\<close> objects hold its \<open>html\<close> and its \<open>pageData\<close>.
\<close>

theorem C6_set_get_roundtrip:
  assumes "entry_value data = Some v" and "kind v = ''PAGE''" and "isAppRouter ctx"
    and "\<forall>op. faults st op = None"
  shows "fst (S3Cache_set JSON pageKey cacheKey data ctx st) = Inr () \<and>
         fst (S3Cache_get JSON pageKey cacheKey (snd (S3Cache_set JSON pageKey cacheKey data ctx st))) =
           Inr (Some data) \<and>
         (\<exists>e' v'. fst (S3Cache_get JSON pageKey cacheKey
                          (snd (S3Cache_set JSON pageKey cacheKey data ctx st))) = Inr (Some e') \<and>
                  entry_value e' = Some v' \<and> kind v' = kind v \<and> html v' = html v \<and>
                  pageData v' = pageData v) \<and>
         map_option Body (map_of (objects (snd (S3Cache_set JSON pageKey cacheKey data ctx st)))
                                 (pageKey @ ''/'' @ cacheKey @ ''.html'')) = Some (Some (html v)) \<and>
         map_option Body (map_of (objects (snd (S3Cache_set JSON pageKey cacheKey data ctx st)))
                                 (pageKey @ ''/'' @ cacheKey @ ''.rsc'')) = Some (Some (pageData v))"
proof -
  note c = S3Cache_set_get_codec [OF assms, of JSON pageKey cacheKey]
  have g: "fst (S3Cache_get JSON pageKey cacheKey (snd (S3Cache_set JSON pageKey cacheKey data ctx st))) =
      Inr (Some data)"
    using c by (simp add: JSON_roundtrip)
  have e: "\<exists>e' v'. fst (S3Cache_get JSON pageKey cacheKey
                          (snd (S3Cache_set JSON pageKey cacheKey data ctx st))) = Inr (Some e') \<and>
                  entry_value e' = Some v' \<and> kind v' = kind v \<and> html v' = html v \<and>
                  pageData v' = pageData v"
    using g assms(1) by (intro exI [of _ data] exI [of _ v]) simp
  from c g e show ?thesis by blast
qed

text \<open>
  Two page entries written to an empty bucket and read back, one of them with double
  quotes and a line feed in its \<open>html\<close>, and the text of a small entry.
\<close>

theorem C6_witness:
  "entry_value quoted_entry = Some quoted_value \<and> kind quoted_value = ''PAGE'' \<and>
   isAppRouter sample_context \<and> (\<forall>op. faults (sample_store [] 1000) op = None) \<and>
   fst (S3Cache_get JSON ''page'' ''a''
          (snd (S3Cache_set JSON ''page'' ''a'' quoted_entry sample_context (sample_store [] 1000))))
     = Inr (Some quoted_entry) \<and>
   fst (S3Cache_get JSON ''page'' ''a''
          (snd (S3Cache_set JSON ''page'' ''a'' page_entry sample_context (sample_store [] 1000))))
     = Inr (Some page_entry) \<and>
   quoted_entry \<noteq> page_entry \<and>
   JSON_stringify JSON (sample_entry (Some 60) 1000) =
     ''{\"value\":null,\"lastModified\":1000,\"revalidate\":60}''"
proof -
  have f: "\<forall>op. faults (sample_store [] 1000) op = None"
    by (simp add: sample_store_def)
  have q: "entry_value quoted_entry = Some quoted_value" "kind quoted_value = ''PAGE''"
    by (simp_all add: quoted_entry_def quoted_value_def)
  have p: "entry_value page_entry = Some page_value" "kind page_value = ''PAGE''"
    by (simp_all add: page_entry_def page_value_def)
  have a: "isAppRouter sample_context"
    by (simp add: sample_context_def)
  have d: "quoted_entry \<noteq> page_entry"
    by (simp add: quoted_entry_def page_entry_def)
  have t: "JSON_stringify JSON (sample_entry (Some 60) 1000) =
     ''{\"value\":null,\"lastModified\":1000,\"revalidate\":60}''"
    by code_simp
  from C6_set_get_roundtrip [OF q a f, of "''page''" "''a''"]
    C6_set_get_roundtrip [OF p a f, of "''page''" "''a''"] q a f d t
  show ?thesis by blast
qed

section \<open>Path-form tags\<close>

lemma client_deleteObject_calls:
  "calls (snd (client_deleteObject key st)) = calls st @ [DeleteObject key]"
  by (auto simp: client_deleteObject_def issue_def split: option.splits)

lemma deleteAllByKeyMatch1_page_lookups:
  "filter is_tag_lookup (calls (snd (deleteAllByKeyMatch1_page contents st))) =
     filter is_tag_lookup (calls st)"
proof (induction contents arbitrary: st)
  case Nil
  show ?case by simp
next
  case (Cons k contents)
  show ?case
  proof (cases k)
    case None
    with Cons.IH [of st] show ?thesis by simp
  next
    case (Some key)
    obtain r st' where d: "client_deleteObject key st = (r, st')"
      by (cases "client_deleteObject key st")
    have c: "filter is_tag_lookup (calls st') = filter is_tag_lookup (calls st)"
      using client_deleteObject_calls [of key st] d by simp
    show ?thesis
      using Some d c Cons.IH [of st] Cons.IH [of st'] by (cases r) simp_all
  qed
qed

lemma deleteAllByKeyMatch1_loop_lookups:
  "filter is_tag_lookup (calls (snd (deleteAllByKeyMatch1_loop pageKey tok st))) =
     filter is_tag_lookup (calls st)"
proof (induction pageKey tok st rule: deleteAllByKeyMatch1_loop.induct)
  case (1 pageKey tok st)
  let ?req = "\<lparr>ContinuationToken = tok, Prefix = Some (pageKey @ ''/''), Delimiter = Some ''/''\<rparr>"
  let ?st1 = "issue (ListObjectsV2 ?req) st"
  have c1: "filter is_tag_lookup (calls ?st1) = filter is_tag_lookup (calls st)"
    by (simp add: issue_fields)
  show ?case
  proof (cases "faults st (ListObjectsV2 ?req)")
    case (Some e)
    show ?thesis
      by (subst deleteAllByKeyMatch1_loop.simps)
         (simp add: client_listObjectsV2_fault [OF Some] c1)
  next
    case None
    show ?thesis
    proof (cases "page_limit st < length (listing st ?req)")
      case False
      let ?contents = "map Some (listing st ?req)"
      obtain r st2 where p: "deleteAllByKeyMatch1_page ?contents ?st1 = (r, st2)"
        by (cases "deleteAllByKeyMatch1_page ?contents ?st1")
      have "filter is_tag_lookup (calls st2) = filter is_tag_lookup (calls st)"
        using deleteAllByKeyMatch1_page_lookups [of ?contents ?st1] p c1 by simp
      then show ?thesis
        by (subst deleteAllByKeyMatch1_loop.simps)
           (simp add: client_listObjectsV2_last [OF None False] p split: sum.splits)
    next
      case True
      let ?contents = "map Some (take (page_limit st) (listing st ?req))"
      note l = client_listObjectsV2_more [OF None True]
      obtain r st2 where p: "deleteAllByKeyMatch1_page ?contents ?st1 = (r, st2)"
        by (cases "deleteAllByKeyMatch1_page ?contents ?st1")
      have c2: "filter is_tag_lookup (calls st2) = filter is_tag_lookup (calls st)"
        using deleteAllByKeyMatch1_page_lookups [of ?contents ?st1] p c1 by simp
      show ?thesis
      proof (cases r)
        case (Inl e)
        with c2 show ?thesis
          by (subst deleteAllByKeyMatch1_loop.simps) (simp add: l p)
      next
        case (Inr u)
        from "1.IH" [OF l [symmetric] refl refl p [symmetric] Inr refl] c2
        show ?thesis
          by (subst deleteAllByKeyMatch1_loop.simps) (simp add: l p Inr)
      qed
    qed
  qed
qed

lemma client_getObjectTagging_calls:
  "calls (snd (client_getObjectTagging key st)) = calls st @ [GetObjectTagging key]"
  by (auto simp: client_getObjectTagging_def issue_def split: option.splits)

lemma revalidateTag_reduce_calls:
  "\<exists>rest. calls (snd (revalidateTag_reduce tag allowCacheKeys contents acc st)) = calls st @ rest"
proof (induction contents arbitrary: acc st)
  case Nil
  show ?case by simp
next
  case (Cons k contents)
  show ?case
  proof (cases k)
    case None
    with Cons.IH [of acc st] show ?thesis by simp
  next
    case (Some key)
    obtain r st' where g: "client_getObjectTagging key st = (r, st')"
      by (cases "client_getObjectTagging key st")
    have c: "calls st' = calls st @ [GetObjectTagging key]"
      using client_getObjectTagging_calls [of key st] g by simp
    have rec: "\<exists>rest. calls (snd (revalidateTag_reduce tag allowCacheKeys contents acc' st')) =
        calls st @ rest" for acc'
      using Cons.IH [of acc' st'] c by auto
    show ?thesis
      using Some g rec Cons.IH [of acc st] by (cases r) (simp_all del: ex_simps)
  qed
qed

lemma revalidateTag_loop_first_call:
  "\<exists>rest. calls (snd (revalidateTag_loop tag allowCacheKeys tok acc st)) =
     calls st @ ListObjectsV2 \<lparr>ContinuationToken = tok, Prefix = None, Delimiter = None\<rparr> # rest"
proof (induction tag allowCacheKeys tok acc st rule: revalidateTag_loop.induct)
  case (1 tag allowCacheKeys tok acc st)
  let ?req = "\<lparr>ContinuationToken = tok, Prefix = None, Delimiter = None\<rparr>"
  let ?st1 = "issue (ListObjectsV2 ?req) st"
  have c1: "calls ?st1 = calls st @ [ListObjectsV2 ?req]"
    by (simp add: issue_fields)
  show ?case
  proof (cases "faults st (ListObjectsV2 ?req)")
    case (Some e)
    show ?thesis
      by (subst revalidateTag_loop.simps)
         (simp add: client_listObjectsV2_fault [OF Some] c1)
  next
    case None
    show ?thesis
    proof (cases "page_limit st < length (listing st ?req)")
      case False
      let ?contents = "map Some (listing st ?req)"
      obtain r st2 where p: "revalidateTag_reduce tag allowCacheKeys ?contents (Inr []) ?st1 = (r, st2)"
        by (cases "revalidateTag_reduce tag allowCacheKeys ?contents (Inr []) ?st1")
      obtain rest where "calls st2 = calls st @ ListObjectsV2 ?req # rest"
        using revalidateTag_reduce_calls [of tag allowCacheKeys ?contents "Inr []" ?st1] p c1 by auto
      then show ?thesis
        by (subst revalidateTag_loop.simps)
           (simp add: client_listObjectsV2_last [OF None False] p split: sum.splits)
    next
      case True
      let ?contents = "map Some (take (page_limit st) (listing st ?req))"
      note l = client_listObjectsV2_more [OF None True]
      obtain r st2 where p: "revalidateTag_reduce tag allowCacheKeys ?contents (Inr []) ?st1 = (r, st2)"
        by (cases "revalidateTag_reduce tag allowCacheKeys ?contents (Inr []) ?st1")
      obtain rest where c2: "calls st2 = calls st @ ListObjectsV2 ?req # rest"
        using revalidateTag_reduce_calls [of tag allowCacheKeys ?contents "Inr []" ?st1] p c1 by auto
      show ?thesis
      proof (cases r)
        case (Inl e)
        with c2 show ?thesis
          by (subst revalidateTag_loop.simps) (simp add: l p)
      next
        case (Inr ks)
        from "1.IH" [OF l [symmetric] refl refl p [symmetric] Inr refl] c2
        show ?thesis
          by (subst revalidateTag_loop.simps) (auto simp: l p Inr)
      qed
    qed
  qed
qed

text \<open>
  Claim C4, amended. The \<open>revalidateTag(tag)\<close> of the first class, for a tag that begins
  with the implicit tag marker, is its \<open>deleteAllByKeyMatch\<close> of the tag without the marker
  and issues no call that reads tags (\<open>getObject\<close>, \<open>getObjectTagging\<close>). The
  \<open>revalidateTag(tag, _ctx, allowCacheKeys)\<close> of the second class has no such branch: for
  every tag, one that begins with the marker included, its first call is the listing of
  the whole bucket, with no prefix and no delimiter.
\<close>

theorem C4_path_tag:
  "(startsWith tag NEXT_CACHE_IMPLICIT_TAG_ID \<longrightarrow>
      S3Cache1_revalidateTag J tag st =
        S3Cache1_deleteAllByKeyMatch (drop (length NEXT_CACHE_IMPLICIT_TAG_ID) tag) st \<and>
      filter is_tag_lookup (calls (snd (S3Cache1_revalidateTag J tag st))) =
        filter is_tag_lookup (calls st)) \<and>
   (\<exists>rest. calls (snd (S3Cache_revalidateTag tag allowCacheKeys st)) =
      calls st @ ListObjectsV2 \<lparr>ContinuationToken = None, Prefix = None, Delimiter = None\<rparr> # rest)"
proof -
  have one: "S3Cache1_revalidateTag J tag st =
        S3Cache1_deleteAllByKeyMatch (drop (length NEXT_CACHE_IMPLICIT_TAG_ID) tag) st"
    if "startsWith tag NEXT_CACHE_IMPLICIT_TAG_ID"
    using that by (simp add: S3Cache1_revalidateTag_def)
  have two: "filter is_tag_lookup (calls (snd (S3Cache1_deleteAllByKeyMatch p st))) =
        filter is_tag_lookup (calls st)" for p
    by (simp add: S3Cache1_deleteAllByKeyMatch_def deleteAllByKeyMatch1_loop_lookups)
  obtain r st1 where L: "revalidateTag_loop tag allowCacheKeys None [] st = (r, st1)"
    by (cases "revalidateTag_loop tag allowCacheKeys None [] st")
  obtain rest where c: "calls st1 =
      calls st @ ListObjectsV2 \<lparr>ContinuationToken = None, Prefix = None, Delimiter = None\<rparr> # rest"
    using revalidateTag_loop_first_call [of tag allowCacheKeys None "[]" st] L by auto
  have three: "\<exists>rest. calls (snd (S3Cache_revalidateTag tag allowCacheKeys st)) =
      calls st @ ListObjectsV2 \<lparr>ContinuationToken = None, Prefix = None, Delimiter = None\<rparr> # rest"
  proof (cases r)
    case (Inl e)
    with L c show ?thesis by (simp add: S3Cache_revalidateTag_def)
  next
    case (Inr ks)
    have "calls (snd (S3Cache_deleteObjects ks st1)) =
        calls st1 @ map DeleteObjects (chunkArray ks CHUNK_LIMIT)"
      using deleteObjects_foldl [of st1 "chunkArray ks CHUNK_LIMIT"]
      by (simp add: S3Cache_deleteObjects_def)
    with L c Inr show ?thesis by (simp add: S3Cache_revalidateTag_def)
  qed
  from one two three show ?thesis by simp
qed

text \<open>
  Claim C4, as stated, on the second class: for the tag \<open>_N_T_/page\<close>, which begins with
  the marker, \<open>revalidateTag\<close> lists the whole bucket, reads the tag set of both objects and
  deletes the object tagged \<open>_N_T_/page\<close>; the deletion by path of \<open>/page\<close> would list
  \<open>/page/\<close>, read no tag and delete the other object.
\<close>

theorem C4_counterexample:
  "startsWith ''_N_T_/page'' NEXT_CACHE_IMPLICIT_TAG_ID \<and>
   calls (snd (S3Cache_revalidateTag ''_N_T_/page'' [] path_store)) =
     [ListObjectsV2 \<lparr>ContinuationToken = None, Prefix = None, Delimiter = None\<rparr>,
      GetObjectTagging ''/other/b.json'', GetObjectTagging ''/page/a.json'',
      DeleteObjects [''/other/b.json'']] \<and>
   map fst (objects (snd (S3Cache_revalidateTag ''_N_T_/page'' [] path_store))) = [''/page/a.json''] \<and>
   calls (snd (S3Cache_deleteAllByKeyMatch ''/page'' [] path_store)) =
     [ListObjectsV2 \<lparr>ContinuationToken = None, Prefix = Some ''/page/'', Delimiter = Some ''/''\<rparr>,
      DeleteObjects [''/page/a.json'']] \<and>
   map fst (objects (snd (S3Cache_deleteAllByKeyMatch ''/page'' [] path_store))) = [''/other/b.json'']"
  by code_simp

text \<open>The same bucket and tag with the first class.\<close>

theorem C4_witness:
  "startsWith ''_N_T_/page'' NEXT_CACHE_IMPLICIT_TAG_ID \<and>
   S3Cache1_revalidateTag sample_codec ''_N_T_/page'' path_store =
     S3Cache1_deleteAllByKeyMatch ''/page'' path_store \<and>
   calls (snd (S3Cache1_revalidateTag sample_codec ''_N_T_/page'' path_store)) =
     [ListObjectsV2 \<lparr>ContinuationToken = None, Prefix = Some ''/page/'', Delimiter = Some ''/''\<rparr>,
      DeleteObject ''/page/a.json''] \<and>
   map fst (objects (snd (S3Cache1_revalidateTag sample_codec ''_N_T_/page'' path_store))) =
     [''/other/b.json'']"
proof -
  have s: "startsWith ''_N_T_/page'' NEXT_CACHE_IMPLICIT_TAG_ID"
    by code_simp
  have d: "drop (length NEXT_CACHE_IMPLICIT_TAG_ID) ''_N_T_/page'' = ''/page''"
    by (simp add: NEXT_CACHE_IMPLICIT_TAG_ID_def)
  have c: "calls (snd (S3Cache1_deleteAllByKeyMatch ''/page'' path_store)) =
     [ListObjectsV2 \<lparr>ContinuationToken = None, Prefix = Some ''/page/'', Delimiter = Some ''/''\<rparr>,
      DeleteObject ''/page/a.json'']"
    by code_simp
  have e: "map fst (objects (snd (S3Cache1_deleteAllByKeyMatch ''/page'' path_store))) =
     [''/other/b.json'']"
    by code_simp
  from C4_path_tag [of "''_N_T_/page''" sample_codec path_store "[]"] s
  have "S3Cache1_revalidateTag sample_codec ''_N_T_/page'' path_store =
      S3Cache1_deleteAllByKeyMatch ''/page'' path_store"
    by (simp only: d)
  with s c e show ?thesis by simp
qed

end
